theory Spec2Isabelle
  imports Main "HOL-Library.Word" "HOL-Library.Sublist"
begin

unbundle bit_operations_syntax

text \<open>
  A model of the file watcher of \<^verbatim>\<open>main.go\<close>: the registration of watch roots
  (\<^verbatim>\<open>watcher.Set\<close>), the debounce loop (\<^verbatim>\<open>dedupLoop\<close> with its callback \<^verbatim>\<open>processOp\<close>), the
  notifier (\<^verbatim>\<open>sendScanRequest\<close>), the enumeration of subdirectories (\<^verbatim>\<open>watchSubdirs\<close>) and the
  start of the process (\<^verbatim>\<open>init\<close>, \<^verbatim>\<open>main\<close>). Functions keep the names they have in the source;
  line numbers are those of \<^verbatim>\<open>main.go\<close>. What the program asks of the operating system and
  of its libraries is a parameter (\<open>world\<close>); errors are values; \<^verbatim>\<open>log.Fatal\<close> ends the
  process and is the left summand of a result.
\<close>

section \<open>Paths: the parts of Go's path/filepath the program calls (Unix)\<close>

text \<open>
  The program calls \<^verbatim>\<open>filepath.Clean\<close>, \<^verbatim>\<open>filepath.Abs\<close> and \<^verbatim>\<open>filepath.Join\<close> of Go's
  standard library. They are not part of the repository; they are modelled here after
  their documentation, for a Unix system (separator \<^verbatim>\<open>/\<close>, no volume names):
  Clean replaces runs of separators by one, drops every \<^verbatim>\<open>.\<close> element, drops every inner
  \<^verbatim>\<open>..\<close> element with the element before it, drops \<^verbatim>\<open>..\<close> elements that begin a rooted
  path, and turns the empty result into \<^verbatim>\<open>.\<close>.
\<close>

definition Separator :: char where
  "Separator = CHR ''/''"

fun splitSep :: "string \<Rightarrow> string list" where
  "splitSep [] = [[]]"
| "splitSep (c # cs) =
     (if c = Separator then [] # splitSep cs
      else (case splitSep cs of [] \<Rightarrow> [[c]] | x # xs \<Rightarrow> (c # x) # xs))"

fun joinSep :: "string list \<Rightarrow> string" where
  "joinSep [] = []"
| "joinSep [x] = x"
| "joinSep (x # y # ys) = x @ Separator # joinSep (y # ys)"

text \<open>
  \<open>resolve rooted st cs\<close> walks the elements \<open>cs\<close> of a path from left to right; \<open>st\<close> is
  the stack of elements kept so far, the last one first.
\<close>

fun resolve :: "bool \<Rightarrow> string list \<Rightarrow> string list \<Rightarrow> string list" where
  "resolve rooted st [] = rev st"
| "resolve rooted st (c # cs) =
     (if c = [] \<or> c = ''.'' then resolve rooted st cs
      else if c = ''..'' then
        (case st of
           [] \<Rightarrow> if rooted then resolve rooted [] cs else resolve rooted [''..''] cs
         | x # xs \<Rightarrow>
             if x = ''..'' then resolve rooted (''..'' # st) cs
             else resolve rooted xs cs)
      else resolve rooted (c # st) cs)"

definition IsAbs :: "string \<Rightarrow> bool" where
  "IsAbs path = (case path of [] \<Rightarrow> False | c # _ \<Rightarrow> c = Separator)"

definition Clean :: "string \<Rightarrow> string" where
  "Clean path =
     (if path = [] then ''.''
      else
        let out = resolve (IsAbs path) [] (splitSep path)
        in if IsAbs path then Separator # joinSep out
           else if out = [] then ''.'' else joinSep out)"

text \<open>\<^verbatim>\<open>filepath.Join\<close> of two elements: empty elements are ignored, the rest is joined
  with the separator and cleaned; the join of nothing is the empty string.\<close>

definition Join :: "string \<Rightarrow> string \<Rightarrow> string" where
  "Join a b =
     (if a = [] \<and> b = [] then []
      else if a = [] then Clean b
      else if b = [] then Clean a
      else Clean (a @ Separator # b))"

text \<open>\<^verbatim>\<open>strings.HasPrefix\<close>.\<close>

definition HasPrefix :: "string \<Rightarrow> string \<Rightarrow> bool" where
  "HasPrefix s pre = (length pre \<le> length s \<and> take (length pre) s = pre)"

section \<open>The environment\<close>

datatype err = Err string

type_synonym time = int
  \<comment> \<open>nanoseconds, the unit of \<^verbatim>\<open>time.Duration\<close>\<close>

text \<open>
  What the program reads from the operating system and from its collaborators:
  the working directory (\<^verbatim>\<open>os.Getwd\<close>, used by \<^verbatim>\<open>filepath.Abs\<close>), \<^verbatim>\<open>os.Stat\<close>
  (\<open>Inr True\<close> for a directory), the directory tree below a path as \<^verbatim>\<open>os.ReadDir\<close> shows
  it during the enumeration (a directory is \<open>Unreadable\<close> when \<^verbatim>\<open>os.ReadDir\<close> fails on it, and
  is the list of its entries otherwise), the results of \<^verbatim>\<open>fsnotify.NewWatcher\<close> and of
  \<^verbatim>\<open>fsnotify.Watcher.Add\<close>, and the three places where \<^verbatim>\<open>sendScanRequest\<close> can fail.
\<close>

datatype entry = FileEntry string | DirEntry string dir
  and dir = Unreadable err | Listing "entry list"

record world =
  Getwd :: "err + string"
  Stat :: "time \<Rightarrow> string \<Rightarrow> err + bool"
  ReadTree :: "string \<Rightarrow> dir"
  NewWatcher :: "err option"
  WatAdd :: "time \<Rightarrow> string \<Rightarrow> err option"
  NewRequest :: "string \<Rightarrow> err option"
  ApiKey :: "string option"
  ClientDo :: "time \<Rightarrow> err option"

text \<open>\<^verbatim>\<open>filepath.Abs\<close>: an absolute path is cleaned, a relative one is joined to the
  working directory; it fails when the working directory cannot be read.\<close>

definition Abs :: "world \<Rightarrow> string \<Rightarrow> err + string" where
  "Abs w path =
     (if IsAbs path then Inr (Clean path)
      else (case Getwd w of Inl e \<Rightarrow> Inl e | Inr wd \<Rightarrow> Inr (Join wd path)))"

section \<open>Watch roots: \<^verbatim>\<open>watcher.Set\<close>\<close>

text \<open>
  \<^verbatim>\<open>type watcher []string\<close>. \<open>covered value p\<close> is the test of the loop body of \<^verbatim>\<open>Set\<close>
  (lines 42-43): the cleaned value has the cleaned root as a prefix, and either both have
  the same length or the byte of the value after the prefix is the separator.
\<close>

type_synonym watcher = "string list"

definition covered :: "string \<Rightarrow> string \<Rightarrow> bool" where
  "covered val p =
     (HasPrefix (Clean val) (Clean p) \<and>
      (length (Clean val) = length (Clean p) \<or>
       Clean val ! length (Clean p) = Separator))"

text \<open>\<^verbatim>\<open>Set\<close> returns its error (if any) and the watcher list after the call.\<close>

definition Set :: "world \<Rightarrow> time \<Rightarrow> watcher \<Rightarrow> string \<Rightarrow> err option \<times> watcher" where
  "Set w now wl val =
     (case Stat w now val of
        Inl e \<Rightarrow> (Some e, wl)
      | Inr isDir \<Rightarrow>
          if \<not> isDir then (Some (Err ''watcher path must be a directory''), wl)
          else if list_ex (covered val) wl then (None, wl)
          else (case Abs w val of
                  Inl e \<Rightarrow> (Some e, wl)
                | Inr a \<Rightarrow> (None, wl @ [a])))"

text \<open>
  The flag package calls \<^verbatim>\<open>Set\<close> once for each \<^verbatim>\<open>--watcher\<close> value, in the order of the
  command line, and stops at the first error.
\<close>

fun setAll :: "world \<Rightarrow> time \<Rightarrow> watcher \<Rightarrow> string list \<Rightarrow> err + watcher" where
  "setAll w now wl [] = Inr wl"
| "setAll w now wl (v # vs) =
     (case Set w now wl v of
        (Some e, _) \<Rightarrow> Inl e
      | (None, wl') \<Rightarrow> setAll w now wl' vs)"

text \<open>\<open>subpath a b\<close>: the path \<open>a\<close> is \<open>b\<close> or lies under \<open>b\<close>, by the boundary-aware prefix
  test: \<open>b\<close> is a prefix of \<open>a\<close> that is all of \<open>a\<close> or is followed by a separator.\<close>

definition subpath :: "string \<Rightarrow> string \<Rightarrow> bool" where
  "subpath a b =
     (HasPrefix a b \<and> (length a = length b \<or> a ! length b = Separator))"

definition world0 :: world where
  "world0 = \<lparr>Getwd = Inr ''/home'', Stat = (\<lambda>_ _. Inr True),
     ReadTree = (\<lambda>_. Listing []), NewWatcher = None, WatAdd = (\<lambda>_ _. None),
     NewRequest = (\<lambda>_. None), ApiKey = None, ClientDo = (\<lambda>_. None)\<rparr>"

text \<open>
  What the registration of roots is to achieve, in terms of the elements of a path and not
  of its characters: \<open>under a b\<close> says that the path \<open>a\<close> is \<open>b\<close> or lies below \<open>b\<close> (the
  elements of \<open>b\<close> are the first elements of \<open>a\<close>), and \<open>acceptRoots\<close> goes through the
  supplied roots in their order and ignores a root that is, or lies below, a root accepted
  before it.
\<close>

definition elements :: "string \<Rightarrow> string list" where
  "elements p = filter (\<lambda>c. c \<noteq> []) (splitSep p)"

definition under :: "string \<Rightarrow> string \<Rightarrow> bool" where
  "under a b = prefix (elements b) (elements a)"

fun acceptRoots :: "string list \<Rightarrow> string list \<Rightarrow> string list" where
  "acceptRoots acc [] = acc"
| "acceptRoots acc (v # vs) =
     (if list_ex (under v) acc then acceptRoots acc vs else acceptRoots (acc @ [v]) vs)"

text \<open>An absolute path other than the root directory, as supplied and as cleaned.\<close>

definition properRoot :: "string \<Rightarrow> bool" where
  "properRoot v = (IsAbs v \<and> Clean v \<noteq> [Separator])"

definition cleanRoot :: "string \<Rightarrow> bool" where
  "cleanRoot p = (IsAbs p \<and> Clean p = p \<and> p \<noteq> [Separator])"

text \<open>Auxiliary notions for the proofs about \<^verbatim>\<open>Set\<close>: a path element Clean keeps as it is,
  and a root list in which no root is or lies below an earlier one.\<close>

definition normal :: "string \<Rightarrow> bool" where
  "normal c = (c \<noteq> [] \<and> c \<noteq> ''.'' \<and> c \<noteq> ''..'' \<and> Separator \<notin> set c)"

fun laterFree :: "string list \<Rightarrow> bool" where
  "laterFree [] = True"
| "laterFree (p # ps) = (\<not> list_ex (\<lambda>q. under q p) ps \<and> laterFree ps)"

section \<open>Events, configuration and logging\<close>

text \<open>
  \<^verbatim>\<open>fsnotify.Event\<close> is a path and a bit mask of operations (\<^verbatim>\<open>fsnotify.Op\<close>, a
  \<^verbatim>\<open>uint32\<close>); \<^verbatim>\<open>Has\<close> tests a bit of the mask.
\<close>

record Event =
  Name :: string
  Op :: "32 word"

definition Create :: "32 word" where "Create = 1"
definition Write :: "32 word" where "Write = 2"
definition Remove :: "32 word" where "Remove = 4"
definition Rename :: "32 word" where "Rename = 8"
definition Chmod :: "32 word" where "Chmod = 16"

definition Has :: "Event \<Rightarrow> 32 word \<Rightarrow> bool" where
  "Has e h = (Op e AND h \<noteq> 0)"

text \<open>The package-level variables that \<^verbatim>\<open>init\<close> fills from the process environment.\<close>

record config =
  debugEnv :: bool
  verboseEnv :: bool
  doAuthEnv :: bool
  endpointEnv :: string
  scheduledScanIntervalMinsEnv :: string

datatype level = ERROR | INFO | VERBOSE | DEBUG

type_synonym logline = "level \<times> string list"

text \<open>
  One \<^verbatim>\<open>fsnotify.Watcher\<close> with its \<^verbatim>\<open>dedupLoop\<close>: the timer table, the paths the watcher
  watches, the times at which \<^verbatim>\<open>sendScanRequest\<close> was called, the times at which a
  request was posted with success, and the log.

  A \<^verbatim>\<open>*time.Timer\<close> made by \<^verbatim>\<open>time.AfterFunc\<close> is its deadline (\<open>None\<close> when stopped) and
  the event its callback \<^verbatim>\<open>func() { processOp(event) }\<close> has captured. The table
  \<^verbatim>\<open>timers\<close> maps \<^verbatim>\<open>event.Name\<close> to the timer whose callback captured \<^verbatim>\<open>event\<close>, so the key
  of a timer is the name of its captured event; the table is the list of its timers.
\<close>

record timer =
  deadline :: "time option"
  captured :: Event

record state =
  timers :: "timer list"
  watched :: "string list"
  scanCalls :: "time list"
  posts :: "time list"
  logs :: "logline list"

definition msg :: "err \<Rightarrow> string" where
  "msg e = (case e of Err m \<Rightarrow> m)"

definition printVerbose :: "config \<Rightarrow> string list \<Rightarrow> state \<Rightarrow> state" where
  "printVerbose c args s = (if \<not> verboseEnv c then s else s\<lparr>logs := logs s @ [(VERBOSE, args)]\<rparr>)"

definition printDebug :: "config \<Rightarrow> string list \<Rightarrow> state \<Rightarrow> state" where
  "printDebug c args s = (if \<not> debugEnv c then s else s\<lparr>logs := logs s @ [(DEBUG, args)]\<rparr>)"

definition printError :: "string list \<Rightarrow> state \<Rightarrow> state" where
  "printError args s = s\<lparr>logs := logs s @ [(ERROR, args)]\<rparr>"

definition printInfo :: "string list \<Rightarrow> state \<Rightarrow> state" where
  "printInfo args s = s\<lparr>logs := logs s @ [(INFO, args)]\<rparr>"

section \<open>The notifier: \<^verbatim>\<open>sendScanRequest\<close>\<close>

definition sendScanRequest :: "world \<Rightarrow> time \<Rightarrow> string \<Rightarrow> bool \<Rightarrow> state \<Rightarrow> state" where
  "sendScanRequest w now endpoint useAuthentication s0 =
     (let s = s0\<lparr>scanCalls := scanCalls s0 @ [now]\<rparr> in
      case NewRequest w endpoint of
        Some e \<Rightarrow> printError [''could not create request'', msg e] s
      | None \<Rightarrow>
          if useAuthentication \<and> ApiKey w = None
          then printError [''authentication requested but API key is unset''] s
          else (case ClientDo w now of
                  Some e \<Rightarrow> printError [''error making http request'', msg e] s
                | None \<Rightarrow> s\<lparr>posts := posts s @ [now]\<rparr>))"

section \<open>The debounce loop: \<^verbatim>\<open>dedupLoop\<close> and its callback \<^verbatim>\<open>processOp\<close>\<close>

definition waitFor :: time where
  "waitFor = 100 * 1000000"

definition MaxInt64 :: int where
  "MaxInt64 = 9223372036854775807"

definition AfterFunc :: "time \<Rightarrow> time \<Rightarrow> Event \<Rightarrow> timer" where
  "AfterFunc now d ev = \<lparr>deadline = Some (now + d), captured = ev\<rparr>"

definition Stop :: "timer \<Rightarrow> timer" where
  "Stop t = t\<lparr>deadline := None\<rparr>"

definition Reset :: "time \<Rightarrow> time \<Rightarrow> timer \<Rightarrow> timer" where
  "Reset now d t = t\<lparr>deadline := Some (now + d)\<rparr>"

definition lookupTimer :: "string \<Rightarrow> timer list \<Rightarrow> timer option" where
  "lookupTimer name ts = find (\<lambda>t. Name (captured t) = name) ts"

definition deleteTimer :: "string \<Rightarrow> timer list \<Rightarrow> timer list" where
  "deleteTimer name ts = filter (\<lambda>t. Name (captured t) \<noteq> name) ts"

text \<open>\<^verbatim>\<open>t.Reset(d)\<close> on the timer the table holds for \<open>name\<close> (the table holds pointers).\<close>

definition resetTimer :: "string \<Rightarrow> time \<Rightarrow> time \<Rightarrow> timer list \<Rightarrow> timer list" where
  "resetTimer name now d ts =
     map (\<lambda>t. if Name (captured t) = name then Reset now d t else t) ts"

text \<open>\<^verbatim>\<open>wat.Add\<close> that succeeds: fsnotify keeps one watch for a path.\<close>

definition addWatch :: "string \<Rightarrow> string list \<Rightarrow> string list" where
  "addWatch p ws = (if p \<in> set ws then ws else ws @ [p])"

text \<open>
  The anonymous function inside \<^verbatim>\<open>processOp\<close> (lines 237-275). \<^verbatim>\<open>log.Fatal\<close> ends the
  process: the result is \<open>Inl\<close> of the error and the state at that moment.
\<close>

type_synonym 'a result = "(err \<times> state) + 'a"

definition doProcessing :: "config \<Rightarrow> world \<Rightarrow> time \<Rightarrow> Event \<Rightarrow> state \<Rightarrow> state result" where
  "doProcessing c w now event s0 =
     (if Has event Create then
        let s = printVerbose c [''created path item:'', Name event] s0 in
        case Abs w (Name event) of
          Inl e \<Rightarrow> Inr (printError [''error: could not get absolute path'', msg e] s)
        | Inr absp \<Rightarrow>
            (case Stat w now absp of
               Inl e \<Rightarrow> Inr (printError [''error: could not stat file'', msg e] s)
             | Inr isDir \<Rightarrow>
                 if \<not> isDir then
                   Inr (sendScanRequest w now (endpointEnv c) (doAuthEnv c)
                          (printInfo [''Files changed, sending update:'', absp] s))
                 else
                   (case WatAdd w now absp of
                      Some e \<Rightarrow> Inl (e, s)
                    | None \<Rightarrow>
                        Inr (printInfo
                               [''New directory detected, now watching directory: '', absp]
                               (s\<lparr>watched := addWatch absp (watched s)\<rparr>))))
      else
        Inr (sendScanRequest w now (endpointEnv c) (doAuthEnv c)
               (printInfo [''Files changed, sending update:'', Name event] s0)))"

definition processOp :: "config \<Rightarrow> world \<Rightarrow> time \<Rightarrow> Event \<Rightarrow> state \<Rightarrow> state result" where
  "processOp c w now event s =
     (case doProcessing c w now event s of
        Inl f \<Rightarrow> Inl f
      | Inr s' \<Rightarrow> Inr (s'\<lparr>timers := deleteTimer (Name event) (timers s')\<rparr>))"

text \<open>
  One iteration of the loop of \<^verbatim>\<open>dedupLoop\<close> for an event received from \<^verbatim>\<open>wat.Events\<close> at time
  \<open>now\<close> (lines 285-313). The timer \<^verbatim>\<open>t\<close> of the source is a pointer into the table, so the
  final \<^verbatim>\<open>t.Reset(waitFor)\<close> changes the timer the table holds. The debug line shows the
  name of the event only. The other case of the \<^verbatim>\<open>select\<close> (an error from \<^verbatim>\<open>wat.Errors\<close> is
  logged) does not touch the table and is left out.
\<close>

definition handleEvent :: "config \<Rightarrow> time \<Rightarrow> Event \<Rightarrow> state \<Rightarrow> state" where
  "handleEvent c now event s0 =
     (if \<not> Has event Write \<and> \<not> Has event Remove \<and> \<not> Has event Create then s0
      else
        let s = printDebug c [''EVENT'', Name event] s0;
            s = (case lookupTimer (Name event) (timers s) of
                   Some t \<Rightarrow> s
                 | None \<Rightarrow> s\<lparr>timers := timers s @ [Stop (AfterFunc now MaxInt64 event)]\<rparr>)
        in s\<lparr>timers := resetTimer (Name event) now waitFor (timers s)\<rparr>)"

subsection \<open>The runtime: timers fire, events arrive\<close>

text \<open>
  The Go runtime runs the callback of a timer when its deadline is reached. In this model
  the callback runs at the deadline and as one step: no event is received between the
  firing of a timer and the end of its \<^verbatim>\<open>processOp\<close>. (In the program the entry stays in the
  table while the callback runs, and an event received in that time would reset the timer
  that has fired; the runs considered below have no such event: in a burst every event
  comes before the timer fires.) \<open>nextTimer T ts\<close> is the timer of
  \<open>ts\<close> that fires first among those with a deadline up to \<open>T\<close>.
\<close>

definition fireTime :: "timer \<Rightarrow> time" where
  "fireTime t = (case deadline t of None \<Rightarrow> 0 | Some d \<Rightarrow> d)"

definition expired :: "time \<Rightarrow> timer \<Rightarrow> bool" where
  "expired T t = (case deadline t of None \<Rightarrow> False | Some d \<Rightarrow> d \<le> T)"

definition nextTimer :: "time \<Rightarrow> timer list \<Rightarrow> timer option" where
  "nextTimer T ts =
     (case filter (expired T) ts of
        [] \<Rightarrow> None
      | t # rest \<Rightarrow> Some (foldl (\<lambda>a b. if fireTime b < fireTime a then b else a) t rest))"

function advance :: "config \<Rightarrow> world \<Rightarrow> time \<Rightarrow> state \<Rightarrow> state result" where
  "advance c w T s =
     (case nextTimer T (timers s) of
        None \<Rightarrow> Inr s
      | Some t \<Rightarrow>
          (case processOp c w (fireTime t) (captured t) s of
             Inl f \<Rightarrow> Inl f
           | Inr s' \<Rightarrow> advance c w T s'))"
  by pat_completeness auto

text \<open>Every firing removes a timer from the table, so \<open>advance\<close> terminates.\<close>

lemma doProcessing_timers: "doProcessing c w now ev s = Inr s' \<Longrightarrow> timers s' = timers s"
  by (auto simp: doProcessing_def printVerbose_def printError_def printInfo_def
      sendScanRequest_def Let_def split: if_splits sum.splits option.splits)

lemma foldl_pick_mem: "foldl (\<lambda>a b. if P b a then b else a) t rest \<in> set (t # rest)"
  by (induction rest arbitrary: t) auto

lemma nextTimer_mem:
  assumes "nextTimer T ts = Some t"
  shows "t \<in> set ts"
proof -
  from assms obtain x rest where f: "filter (expired T) ts = x # rest"
    and t: "t = foldl (\<lambda>a b. if fireTime b < fireTime a then b else a) x rest"
    by (auto simp: nextTimer_def split: list.splits)
  have "t \<in> set (x # rest)" unfolding t by (rule foldl_pick_mem)
  then have "t \<in> set (filter (expired T) ts)" using f by simp
  then show ?thesis by simp
qed

lemma processOp_shrinks:
  assumes "nextTimer T (timers s) = Some t" and "processOp c w now (captured t) s = Inr s'"
  shows "length (timers s') < length (timers s)"
proof -
  from assms(2) obtain s1 where d: "doProcessing c w now (captured t) s = Inr s1"
    and s': "s' = s1\<lparr>timers := deleteTimer (Name (captured t)) (timers s1)\<rparr>"
    by (auto simp: processOp_def split: sum.splits)
  from d have "timers s1 = timers s" by (rule doProcessing_timers)
  with s' have "timers s' = filter (\<lambda>u. Name (captured u) \<noteq> Name (captured t)) (timers s)"
    by (simp add: deleteTimer_def)
  moreover from assms(1) have "t \<in> set (timers s)" by (rule nextTimer_mem)
  ultimately show ?thesis by (simp add: length_filter_less)
qed

termination advance
  by (relation "measure (\<lambda>(c, w, T, s). length (timers s))") (auto dest: processOp_shrinks)

declare advance.simps [simp del]

text \<open>
  \<open>run\<close> delivers events in the order of their times: before an event received at time
  \<open>t\<close> is handled, the timers with a deadline up to \<open>t\<close> have fired.
\<close>

fun run :: "config \<Rightarrow> world \<Rightarrow> (time \<times> Event) list \<Rightarrow> state \<Rightarrow> state result" where
  "run c w [] s = Inr s"
| "run c w ((t, ev) # rest) s =
     (case advance c w t s of
        Inl f \<Rightarrow> Inl f
      | Inr s' \<Rightarrow> run c w rest (handleEvent c t ev s'))"

text \<open>
  A burst on the path \<open>p\<close> after an event at time \<open>t\<close>: every further event is on \<open>p\<close>, has
  one of the operations the loop listens on, and is received less than the quiet window
  after the event before it.
\<close>

definition qualifies :: "Event \<Rightarrow> bool" where
  "qualifies ev = (Has ev Write \<or> Has ev Remove \<or> Has ev Create)"

fun burst :: "string \<Rightarrow> time \<Rightarrow> (time \<times> Event) list \<Rightarrow> bool" where
  "burst p t [] = True"
| "burst p t ((t', ev) # rest) =
     (Name ev = p \<and> qualifies ev \<and> t \<le> t' \<and> t' < t + waitFor \<and> burst p t' rest)"

fun lastTime :: "time \<Rightarrow> (time \<times> Event) list \<Rightarrow> time" where
  "lastTime t [] = t"
| "lastTime t ((t', ev) # rest) = lastTime t' rest"

text \<open>The lines \<^verbatim>\<open>printDebug("EVENT", event)\<close> writes for a list of events.\<close>

definition debugLines :: "config \<Rightarrow> (time \<times> Event) list \<Rightarrow> logline list" where
  "debugLines c evs =
     (if debugEnv c then map (\<lambda>(t, ev). (DEBUG, [''EVENT'', Name ev])) evs else [])"

definition idle :: state where
  "idle = \<lparr>timers = [], watched = [], scanCalls = [], posts = [], logs = []\<rparr>"

definition config0 :: config where
  "config0 = \<lparr>debugEnv = False, verboseEnv = False, doAuthEnv = False,
     endpointEnv = ''http://stash/graphql'', scheduledScanIntervalMinsEnv = ''30''\<rparr>"

definition runBurst ::
  "config \<Rightarrow> world \<Rightarrow> (time \<times> Event) list \<Rightarrow> time \<Rightarrow> state \<Rightarrow> state result" where
  "runBurst c w evs T s =
     (case run c w evs s of Inl f \<Rightarrow> Inl f | Inr sm \<Rightarrow> advance c w T sm)"

definition writeOrRemove :: "Event \<Rightarrow> bool" where
  "writeOrRemove ev = ((Has ev Write \<or> Has ev Remove) \<and> \<not> Has ev Create)"

text \<open>The state in which a burst that began with the event \<open>e1\<close> at time \<open>t1\<close> leaves an idle
  table: one timer, armed one quiet window after the last event, holding \<open>e1\<close>.\<close>

definition pendingState ::
  "config \<Rightarrow> state \<Rightarrow> time \<Rightarrow> Event \<Rightarrow> (time \<times> Event) list \<Rightarrow> state" where
  "pendingState c s t1 e1 rest =
     s\<lparr>timers := [\<lparr>deadline = Some (lastTime t1 rest + waitFor), captured = e1\<rparr>],
       logs := logs s @ debugLines c ((t1, e1) # rest)\<rparr>"

section \<open>Enumeration: \<^verbatim>\<open>watchSubdirs\<close>\<close>

text \<open>
  \<open>watchSubdirs c w now d tree s\<close> enumerates the directory \<open>d\<close> whose content is \<open>tree\<close>.
  It returns the error of \<^verbatim>\<open>os.ReadDir\<close> on \<open>d\<close> itself, if any; the value the recursive
  call returns is dropped (line 219). \<open>watchEntries\<close> is the loop over the entries.
\<close>

fun watchSubdirs ::
    "config \<Rightarrow> world \<Rightarrow> time \<Rightarrow> string \<Rightarrow> dir \<Rightarrow> state \<Rightarrow> (err option \<times> state) result"
  and watchEntries ::
    "config \<Rightarrow> world \<Rightarrow> time \<Rightarrow> string \<Rightarrow> entry list \<Rightarrow> state \<Rightarrow> state result" where
  "watchSubdirs c w now d (Unreadable e) s = Inr (Some e, s)"
| "watchSubdirs c w now d (Listing es) s =
     (case watchEntries c w now d es s of
        Inl f \<Rightarrow> Inl f
      | Inr s' \<Rightarrow> Inr (None, s'))"
| "watchEntries c w now d [] s = Inr s"
| "watchEntries c w now d (FileEntry n # es) s = watchEntries c w now d es s"
| "watchEntries c w now d (DirEntry n sub # es) s =
     (case WatAdd w now (Join d n) of
        Some e \<Rightarrow> Inl (e, s)
      | None \<Rightarrow>
          (case watchSubdirs c w now (Join d n) sub
                  (printVerbose c [''Now watching'', Join d n]
                     (s\<lparr>watched := addWatch (Join d n) (watched s)\<rparr>)) of
             Inl f \<Rightarrow> Inl f
           | Inr (_, s') \<Rightarrow> watchEntries c w now d es s'))"

text \<open>The same tree with every directory that cannot be listed taken as empty.\<close>

fun pruneDir :: "dir \<Rightarrow> dir"
  and pruneEntries :: "entry list \<Rightarrow> entry list"
  and pruneEntry :: "entry \<Rightarrow> entry" where
  "pruneDir (Unreadable e) = Listing []"
| "pruneDir (Listing es) = Listing (pruneEntries es)"
| "pruneEntries [] = []"
| "pruneEntries (x # xs) = pruneEntry x # pruneEntries xs"
| "pruneEntry (FileEntry n) = FileEntry n"
| "pruneEntry (DirEntry n sub) = DirEntry n (pruneDir sub)"

section \<open>Start of the process: \<^verbatim>\<open>init\<close> and \<^verbatim>\<open>main\<close>\<close>

text \<open>
  What the process is started with: the values of the \<^verbatim>\<open>--watcher\<close> flags in their order,
  the arguments left after the flags (\<^verbatim>\<open>flag.Args()\<close>), and the environment variables
  \<^verbatim>\<open>init\<close> looks up.
\<close>

record process =
  watcherArgs :: "string list"
  otherArgs :: "string list"
  envEndpoint :: "string option"
  envInterval :: "string option"
  envDebug :: bool
  envVerbose :: bool
  envDoAuth :: bool

text \<open>\<^verbatim>\<open>init\<close> (lines 67-121): \<open>Inl\<close> is \<^verbatim>\<open>log.Fatal\<close>.\<close>

definition init :: "process \<Rightarrow> err + config" where
  "init p =
     (case envEndpoint p of
        None \<Rightarrow> Inl (Err ''Stash API endpoint is unset'')
      | Some ep \<Rightarrow>
          Inr \<lparr>debugEnv = envDebug p, verboseEnv = envVerbose p, doAuthEnv = envDoAuth p,
               endpointEnv = ep,
               scheduledScanIntervalMinsEnv =
                 (case envInterval p of None \<Rightarrow> ''30'' | Some v \<Rightarrow> v)\<rparr>)"

text \<open>
  \<^verbatim>\<open>strconv.Atoi\<close> of Go's standard library, after its documentation: an optional sign,
  then one decimal digit or more; a value outside of 64 bits is an error.
\<close>

definition isDigit :: "char \<Rightarrow> bool" where
  "isDigit ch = (48 \<le> (of_char ch :: int) \<and> (of_char ch :: int) \<le> 57)"

fun digitsValue :: "int \<Rightarrow> string \<Rightarrow> int option" where
  "digitsValue acc [] = Some acc"
| "digitsValue acc (ch # cs) =
     (if isDigit ch then digitsValue (acc * 10 + (of_char ch - 48)) cs else None)"

definition Atoi :: "string \<Rightarrow> err + int" where
  "Atoi s =
     (case s of
        [] \<Rightarrow> Inl (Err ''invalid syntax'')
      | ch # cs \<Rightarrow>
          let neg = (ch = CHR ''-'');
              body = (if ch = CHR ''-'' \<or> ch = CHR ''+'' then cs else s)
          in if body = [] then Inl (Err ''invalid syntax'')
             else (case digitsValue 0 body of
                     None \<Rightarrow> Inl (Err ''invalid syntax'')
                   | Some n \<Rightarrow>
                       let v = (if neg then - n else n)
                       in if v < - (2 ^ 63) \<or> 2 ^ 63 - 1 < v
                          then Inl (Err ''value out of range'')
                          else Inr v))"

text \<open>\<^verbatim>\<open>time.Duration(d) * time.Minute\<close> in 64 bits, and \<^verbatim>\<open>time.NewTicker\<close>, which panics on
  a duration that is not positive.\<close>

definition Minute :: "64 word" where
  "Minute = 60000000000"

datatype exit = FlagError err | LogFatal err | Panic string

definition tickerPeriod :: "config \<Rightarrow> exit + time" where
  "tickerPeriod c =
     (case Atoi (scheduledScanIntervalMinsEnv c) of
        Inl e \<Rightarrow> Inl (LogFatal e)
      | Inr d \<Rightarrow>
          let period = sint ((word_of_int d :: 64 word) * Minute)
          in if period \<le> 0 then Inl (Panic ''non-positive interval for NewTicker'')
             else Inr period)"

text \<open>
  The goroutines \<^verbatim>\<open>main\<close> starts for a root, and what is running when \<^verbatim>\<open>main\<close> has gone
  through its loop over the roots (lines 334-350): the goroutines in the order in which
  they were started, and the watcher of every root with its state.
\<close>

datatype goroutine = DedupLoop string | WatchSubdirs string

record running =
  goroutines :: "goroutine list"
  watchers :: "(string \<times> state) list"

definition noneRunning :: running where
  "noneRunning = \<lparr>goroutines = [], watchers = []\<rparr>"

text \<open>
  The loop of \<^verbatim>\<open>main\<close> over the roots. For every root it makes a watcher, starts
  \<^verbatim>\<open>dedupLoop\<close> on it (\<^verbatim>\<open>go dedupLoop(wat)\<close>), adds the root to the watcher, logs, and starts
  the enumeration (\<^verbatim>\<open>go watchSubdirs(w, wat)\<close>); it does not wait for the enumeration and does
  not read what it returns. An error of \<^verbatim>\<open>fsnotify.NewWatcher\<close> or of \<^verbatim>\<open>wat.Add\<close> is
  \<^verbatim>\<open>log.Fatal\<close>.
\<close>

fun startRoots ::
  "world \<Rightarrow> time \<Rightarrow> string list \<Rightarrow> running \<Rightarrow> err option \<times> running" where
  "startRoots w now [] m = (None, m)"
| "startRoots w now (r # rs) m =
     (case NewWatcher w of
        Some e \<Rightarrow> (Some e, m)
      | None \<Rightarrow>
          (case WatAdd w now r of
             Some e \<Rightarrow>
               (Some e, \<lparr>goroutines = goroutines m @ [DedupLoop r],
                         watchers = watchers m @ [(r, idle)]\<rparr>)
           | None \<Rightarrow>
               startRoots w now rs
                 \<lparr>goroutines = goroutines m @ [DedupLoop r, WatchSubdirs r],
                  watchers = watchers m @
                    [(r, printInfo [''Initial watcher started at:'', r]
                           (idle\<lparr>watched := [r]\<rparr>))]\<rparr>))"

datatype outcome = Exited exit | Serving time

text \<open>
  \<^verbatim>\<open>main\<close> up to the point where it waits for the interrupt signal: \<open>Serving period\<close> when it
  gets there, with the period of the ticker. \<^verbatim>\<open>flag.Parse\<close> calls \<^verbatim>\<open>Set\<close> for the
  \<^verbatim>\<open>--watcher\<close> values and exits with status 2 on an error.
\<close>

definition main :: "process \<Rightarrow> config \<Rightarrow> world \<Rightarrow> time \<Rightarrow> outcome \<times> running" where
  "main p c w now =
     (case setAll w now [] (watcherArgs p) of
        Inl e \<Rightarrow> (Exited (FlagError e), noneRunning)
      | Inr watcherFlag \<Rightarrow>
          if length (otherArgs p) > 0
          then (Exited (LogFatal (Err ''Unknown arguments: '')), noneRunning)
          else if length watcherFlag < 1
          then (Exited (LogFatal (Err ''Error: no watcher arguments provided. '')), noneRunning)
          else
            (case startRoots w now watcherFlag noneRunning of
               (Some e, m) \<Rightarrow> (Exited (LogFatal e), m)
             | (None, m) \<Rightarrow>
                 (case tickerPeriod c of
                    Inl x \<Rightarrow> (Exited x, m)
                  | Inr period \<Rightarrow> (Serving period, m))))"

definition program :: "process \<Rightarrow> world \<Rightarrow> time \<Rightarrow> outcome \<times> running" where
  "program p w now =
     (case init p of
        Inl e \<Rightarrow> (Exited (LogFatal e), noneRunning)
      | Inr c \<Rightarrow> main p c w now)"

text \<open>
  The goroutine \<^verbatim>\<open>go watchSubdirs(w, wat)\<close> of a root \<open>r\<close>, on the state of the watcher of
  \<open>r\<close>: the error \<^verbatim>\<open>watchSubdirs\<close> returns is lost; \<open>Inl\<close> is \<^verbatim>\<open>log.Fatal\<close> on a failed
  \<^verbatim>\<open>wat.Add\<close>.
\<close>

definition dropErr :: "(err option \<times> state) result \<Rightarrow> state result" where
  "dropErr r = (case r of Inl f \<Rightarrow> Inl f | Inr (_, s') \<Rightarrow> Inr s')"

definition goWatchSubdirs :: "config \<Rightarrow> world \<Rightarrow> time \<Rightarrow> string \<Rightarrow> state \<Rightarrow> state result" where
  "goWatchSubdirs c w now r s = dropErr (watchSubdirs c w now r (ReadTree w r) s)"

text \<open>
  The process once the enumerations that \<^verbatim>\<open>main\<close> has started have come to their ends, taken
  one after the other in the order of the roots: \<open>enumerations\<close> runs them on the
  watchers, and \<open>mainEnumerated\<close> is \<^verbatim>\<open>main\<close> followed by them when \<^verbatim>\<open>main\<close> serves.
\<close>

fun enumerations ::
  "config \<Rightarrow> world \<Rightarrow> time \<Rightarrow> (string \<times> state) list \<Rightarrow> (string \<times> state) list \<Rightarrow>
   err option \<times> (string \<times> state) list" where
  "enumerations c w now [] ended = (None, ended)"
| "enumerations c w now ((r, s) # rest) ended =
     (case goWatchSubdirs c w now r s of
        Inl (e, s') \<Rightarrow> (Some e, ended @ (r, s') # rest)
      | Inr s' \<Rightarrow> enumerations c w now rest (ended @ [(r, s')]))"

definition mainEnumerated ::
  "process \<Rightarrow> config \<Rightarrow> world \<Rightarrow> time \<Rightarrow> outcome \<times> running" where
  "mainEnumerated p c w now =
     (case main p c w now of
        (Exited x, m) \<Rightarrow> (Exited x, m)
      | (Serving period, m) \<Rightarrow>
          (case enumerations c w now (watchers m) [] of
             (Some e, ws) \<Rightarrow> (Exited (LogFatal e), m\<lparr>watchers := ws\<rparr>)
           | (None, ws) \<Rightarrow> (Serving period, m\<lparr>watchers := ws\<rparr>)))"

text \<open>The goroutine of the ticker (lines 359-367): one scheduled scan, and the first \<open>n\<close>
  ticks of a ticker made at time \<open>start\<close>.\<close>

definition scheduledScan :: "config \<Rightarrow> world \<Rightarrow> time \<Rightarrow> state \<Rightarrow> state" where
  "scheduledScan c w now s =
     sendScanRequest w now (endpointEnv c) (doAuthEnv c)
       (printInfo [''Running scheduled scan''] s)"

fun ticker :: "config \<Rightarrow> world \<Rightarrow> time \<Rightarrow> time \<Rightarrow> nat \<Rightarrow> state \<Rightarrow> state" where
  "ticker c w start period 0 s = s"
| "ticker c w start period (Suc n) s =
     scheduledScan c w (start + int (Suc n) * period) (ticker c w start period n s)"

text \<open>An optional sign followed by one decimal digit or more.\<close>

definition isInteger :: "string \<Rightarrow> bool" where
  "isInteger s =
     (case s of
        [] \<Rightarrow> False
      | ch # cs \<Rightarrow>
          if ch = CHR ''-'' \<or> ch = CHR ''+'' then cs \<noteq> [] \<and> list_all isDigit cs
          else list_all isDigit s)"

definition process0 :: process where
  "process0 = \<lparr>watcherArgs = [''/data''], otherArgs = [], envEndpoint = Some ''http://stash/graphql'',
     envInterval = None, envDebug = False, envVerbose = False, envDoAuth = False\<rparr>"

text \<open>\<^verbatim>\<open>filepath.Abs\<close> or \<^verbatim>\<open>os.Stat\<close> fails for the path of the event (lines 242-252).\<close>

definition cannotStat :: "world \<Rightarrow> time \<Rightarrow> Event \<Rightarrow> bool" where
  "cannotStat w now ev =
     (case Abs w (Name ev) of
        Inl e \<Rightarrow> True
      | Inr a \<Rightarrow> (case Stat w now a of Inl e \<Rightarrow> True | Inr isDir \<Rightarrow> False))"

text \<open>What is running when \<^verbatim>\<open>main\<close> has gone through its loop for all of the roots \<open>rs\<close>:
  for every root, in the order of the roots, its \<^verbatim>\<open>dedupLoop\<close> and its enumeration have
  been started and the root is watched.\<close>

definition rootGoroutines :: "string list \<Rightarrow> goroutine list" where
  "rootGoroutines rs = concat (map (\<lambda>r. [DedupLoop r, WatchSubdirs r]) rs)"

definition rootWatchers :: "string list \<Rightarrow> (string \<times> state) list" where
  "rootWatchers rs =
     map (\<lambda>r. (r, printInfo [''Initial watcher started at:'', r] (idle\<lparr>watched := [r]\<rparr>))) rs"

section \<open>Proofs: paths and watch roots\<close>

lemma splitSep_nonempty: "splitSep s \<noteq> []"
  by (induction s) (auto split: list.splits)

lemma splitSep_no_sep: "x \<in> set (splitSep s) \<Longrightarrow> Separator \<notin> set x"
  by (induction s arbitrary: x) (auto split: list.splits if_splits)

lemma resolve_rooted_normal:
  "list_all normal st \<Longrightarrow> list_all (\<lambda>c. Separator \<notin> set c) cs \<Longrightarrow>
   list_all normal (resolve True st cs)"
proof (induction cs arbitrary: st)
  case Nil
  then show ?case by (simp add: list_all_iff)
next
  case (Cons c cs)
  then show ?case
    by (cases st) (auto simp: normal_def)
qed

lemma resolve_normal_id:
  "list_all normal cs \<Longrightarrow> resolve r st cs = rev st @ cs"
  by (induction cs arbitrary: st) (auto simp: normal_def)

lemma splitSep_joinSep:
  "cs \<noteq> [] \<Longrightarrow> list_all (\<lambda>c. Separator \<notin> set c) cs \<Longrightarrow> splitSep (joinSep cs) = cs"
proof (induction cs rule: joinSep.induct)
  case 1
  then show ?case by simp
next
  case (2 x)
  then show ?case by (induction x) (auto split: list.splits)
next
  case (3 x y ys)
  then have ih: "splitSep (joinSep (y # ys)) = y # ys" by simp
  from 3 have "Separator \<notin> set x" by simp
  then have "splitSep (x @ Separator # joinSep (y # ys)) = x # splitSep (joinSep (y # ys))"
    by (induction x) (auto split: list.splits)
  with ih show ?case by simp
qed

lemma Clean_rooted_form:
  assumes "IsAbs p"
  shows "\<exists>out. Clean p = Separator # joinSep out \<and> list_all normal out"
proof -
  from assms have ne: "p \<noteq> []" by (auto simp: IsAbs_def)
  have "list_all (\<lambda>c. Separator \<notin> set c) (splitSep p)"
    by (simp add: list_all_iff splitSep_no_sep)
  then have "list_all normal (resolve True [] (splitSep p))"
    by (intro resolve_rooted_normal) simp_all
  with assms ne show ?thesis by (auto simp: Clean_def Let_def)
qed

lemma Clean_of_rooted_form:
  assumes "list_all normal out"
  shows "Clean (Separator # joinSep out) = Separator # joinSep out"
proof (cases "out = []")
  case True
  then show ?thesis by (simp add: Clean_def IsAbs_def)
next
  case False
  from assms have ns: "list_all (\<lambda>c. Separator \<notin> set c) out"
    by (simp add: list_all_iff normal_def)
  have "splitSep (Separator # joinSep out) = [] # out"
    using splitSep_joinSep [OF False ns] by simp
  moreover have "resolve True [] ([] # out) = out"
    using resolve_normal_id [OF assms, of True "[]"] by simp
  ultimately show ?thesis by (simp add: Clean_def IsAbs_def)
qed

lemma Clean_idem_abs: "IsAbs p \<Longrightarrow> Clean (Clean p) = Clean p"
  using Clean_rooted_form Clean_of_rooted_form by metis

lemma subpath_iff: "subpath a b \<longleftrightarrow> a = b \<or> (\<exists>z. a = b @ Separator # z)"
proof
  assume s: "subpath a b"
  then have t: "take (length b) a = b" and le: "length b \<le> length a"
    by (simp_all add: subpath_def HasPrefix_def)
  then have a: "a = b @ drop (length b) a" by (metis append_take_drop_id)
  show "a = b \<or> (\<exists>z. a = b @ Separator # z)"
  proof (cases "length a = length b")
    case True
    with a show ?thesis by (metis append_Nil2 drop_all order_refl)
  next
    case False
    with s have sep: "a ! length b = Separator" by (simp add: subpath_def)
    from False le have lt: "length b < length a" by simp
    then have "drop (length b) a = a ! length b # drop (Suc (length b)) a"
      by (simp add: Cons_nth_drop_Suc)
    with a sep show ?thesis by metis
  qed
next
  assume "a = b \<or> (\<exists>z. a = b @ Separator # z)"
  then show "subpath a b"
    by (auto simp: subpath_def HasPrefix_def nth_append)
qed

lemma splitSep_append_sep: "splitSep (x @ Separator # z) = splitSep x @ splitSep z"
  by (induction x) (auto simp: splitSep_nonempty split: list.splits)

lemma joinSep_append:
  "xs \<noteq> [] \<Longrightarrow> zs \<noteq> [] \<Longrightarrow> joinSep (xs @ zs) = joinSep xs @ Separator # joinSep zs"
proof (induction xs rule: joinSep.induct)
  case 1
  then show ?case by simp
next
  case (2 x)
  then show ?case by (cases zs) simp_all
next
  case (3 x y ys)
  then show ?case by simp
qed


lemma joinSep_eq_Nil: "list_all normal xs \<Longrightarrow> joinSep xs = [] \<Longrightarrow> xs = []"
  by (induction xs rule: joinSep.induct) (auto simp: normal_def)

lemma normal_no_sep: "list_all normal xs \<Longrightarrow> list_all (\<lambda>c. Separator \<notin> set c) xs"
  by (simp add: list_all_iff normal_def)

lemma subpath_joined:
  assumes nx: "list_all normal xs" and ny: "list_all normal ys" and ne: "xs \<noteq> []"
  shows "subpath (Separator # joinSep ys) (Separator # joinSep xs) \<longleftrightarrow> prefix xs ys"
proof
  assume "subpath (Separator # joinSep ys) (Separator # joinSep xs)"
  then consider "joinSep ys = joinSep xs" | z where "joinSep ys = joinSep xs @ Separator # z"
    by (auto simp: subpath_iff)
  then show "prefix xs ys"
  proof cases
    case 1
    with ne nx have yne: "ys \<noteq> []" using joinSep_eq_Nil by fastforce
    have sy: "splitSep (joinSep ys) = ys" and sx: "splitSep (joinSep xs) = xs"
      using yne ne nx ny by (simp_all add: splitSep_joinSep normal_no_sep)
    have "ys = xs" using sy sx 1 by metis
    then show ?thesis by simp
  next
    case 2
    then have yne: "ys \<noteq> []" by auto
    have sy: "splitSep (joinSep ys) = ys" and sx: "splitSep (joinSep xs) = xs"
      using yne ne nx ny by (simp_all add: splitSep_joinSep normal_no_sep)
    have "ys = xs @ splitSep z" using sy sx 2 splitSep_append_sep [of "joinSep xs" z] by metis
    then show ?thesis by simp
  qed
next
  assume "prefix xs ys"
  then obtain zs where ys: "ys = xs @ zs" by (auto simp: prefix_def)
  show "subpath (Separator # joinSep ys) (Separator # joinSep xs)"
  proof (cases "zs = []")
    case True
    with ys show ?thesis by (simp add: subpath_iff)
  next
    case False
    with ne ys have "joinSep ys = joinSep xs @ Separator # joinSep zs"
      by (simp add: joinSep_append)
    then show ?thesis by (simp add: subpath_iff)
  qed
qed

lemma elements_joined: "list_all normal out \<Longrightarrow> elements (Separator # joinSep out) = out"
proof (cases "out = []")
  case True
  then show ?thesis by (simp add: elements_def)
next
  case False
  assume n: "list_all normal out"
  then have "splitSep (joinSep out) = out"
    using False by (simp add: splitSep_joinSep normal_no_sep)
  moreover from n have "filter (\<lambda>c. c \<noteq> []) out = out"
    by (simp add: list_all_iff normal_def)
  ultimately show ?thesis by (simp add: elements_def)
qed

lemma cleanRoot_form:
  assumes "cleanRoot p"
  shows "\<exists>out. p = Separator # joinSep out \<and> list_all normal out \<and> out \<noteq> []"
proof -
  from assms have "IsAbs p" and c: "Clean p = p" and nr: "p \<noteq> [Separator]"
    by (simp_all add: cleanRoot_def)
  from Clean_rooted_form [OF \<open>IsAbs p\<close>] c obtain out
    where p: "p = Separator # joinSep out" and n: "list_all normal out" by auto
  with nr have "out \<noteq> []" by auto
  with p n show ?thesis by blast
qed

lemma properRoot_Clean: "properRoot v \<Longrightarrow> cleanRoot (Clean v)"
proof -
  assume pr: "properRoot v"
  then have ab: "IsAbs v" by (simp add: properRoot_def)
  from Clean_rooted_form [OF ab] have "IsAbs (Clean v)" by (auto simp: IsAbs_def)
  with pr ab show ?thesis by (simp add: cleanRoot_def properRoot_def Clean_idem_abs)
qed

lemma covered_under:
  assumes "properRoot v" and "cleanRoot p"
  shows "covered v p \<longleftrightarrow> under (Clean v) p"
proof -
  from cleanRoot_form [OF assms(2)] obtain xs
    where p: "p = Separator # joinSep xs" and nx: "list_all normal xs" and ne: "xs \<noteq> []"
    by blast
  from cleanRoot_form [OF properRoot_Clean [OF assms(1)]] obtain ys
    where v: "Clean v = Separator # joinSep ys" and ny: "list_all normal ys"
    by blast
  from assms(2) have "Clean p = p" by (simp add: cleanRoot_def)
  then have "covered v p \<longleftrightarrow> subpath (Clean v) p"
    by (simp add: covered_def subpath_def)
  also have "\<dots> \<longleftrightarrow> prefix xs ys"
    unfolding p v using nx ny ne by (rule subpath_joined)
  also have "\<dots> \<longleftrightarrow> under (Clean v) p"
    unfolding p v by (simp add: under_def elements_joined nx ny)
  finally show ?thesis .
qed

lemma Set_proper:
  assumes "properRoot v" and "Stat w now v = Inr True" and "list_all cleanRoot wl"
  shows "Set w now wl v =
           (None, if list_ex (under (Clean v)) wl then wl else wl @ [Clean v])"
proof -
  from assms(1,3) have "list_ex (covered v) wl \<longleftrightarrow> list_ex (under (Clean v)) wl"
    by (auto simp: list_ex_iff list_all_iff covered_under)
  moreover from assms(1) have "Abs w v = Inr (Clean v)"
    by (simp add: Abs_def properRoot_def)
  ultimately show ?thesis using assms(2) by (simp add: Set_def)
qed

lemma setAll_accept:
  "list_all cleanRoot wl \<Longrightarrow> \<forall>v\<in>set vs. properRoot v \<and> Stat w now v = Inr True \<Longrightarrow>
   setAll w now wl vs = Inr (acceptRoots wl (map Clean vs))"
proof (induction vs arbitrary: wl)
  case Nil
  then show ?case by simp
next
  case (Cons v vs)
  then have pv: "properRoot v" and st: "Stat w now v = Inr True" by simp_all
  let ?wl' = "if list_ex (under (Clean v)) wl then wl else wl @ [Clean v]"
  have s: "Set w now wl v = (None, ?wl')" using pv st Cons.prems(1) by (rule Set_proper)
  have "list_all cleanRoot ?wl'" using Cons.prems(1) pv by (simp add: properRoot_Clean)
  from Cons.IH [OF this] Cons.prems(2)
  have "setAll w now ?wl' vs = Inr (acceptRoots ?wl' (map Clean vs))" by simp
  with s show ?case by simp
qed

lemma under_refl: "under a a"
  by (simp add: under_def)

lemma laterFree_append:
  "laterFree (wl @ [a]) = (laterFree wl \<and> \<not> list_ex (under a) wl)"
  by (induction wl) (auto simp: list_ex_iff)

lemma laterFree_nth:
  "laterFree wl \<Longrightarrow> i < j \<Longrightarrow> j < length wl \<Longrightarrow> \<not> under (wl ! j) (wl ! i)"
proof (induction wl arbitrary: i j)
  case Nil
  then show ?case by simp
next
  case (Cons p ps)
  from Cons.prems obtain j' where j: "j = Suc j'" by (cases j) auto
  show ?case
  proof (cases i)
    case 0
    with Cons.prems j show ?thesis by (auto simp: list_ex_iff)
  next
    case (Suc i')
    with Cons.prems j Cons.IH [of i' j'] show ?thesis by simp
  qed
qed

lemma acceptRoots_props:
  "laterFree acc \<Longrightarrow>
   laterFree (acceptRoots acc vs) \<and>
   (\<exists>ys. acceptRoots acc vs = acc @ ys \<and> subseq ys vs) \<and>
   (\<forall>v\<in>set vs. \<exists>p\<in>set (acceptRoots acc vs). under v p)"
proof (induction vs arbitrary: acc)
  case Nil
  then show ?case by simp
next
  case (Cons v vs)
  show ?case
  proof (cases "list_ex (under v) acc")
    case True
    from Cons.IH [OF Cons.prems] obtain ys where
      lf: "laterFree (acceptRoots acc vs)" and ys: "acceptRoots acc vs = acc @ ys" "subseq ys vs"
      and cov: "\<forall>u\<in>set vs. \<exists>p\<in>set (acceptRoots acc vs). under u p" by blast
    from True ys have "\<exists>p\<in>set (acceptRoots acc vs). under v p" by (auto simp: list_ex_iff)
    with True lf ys cov show ?thesis by auto
  next
    case False
    with Cons.prems have "laterFree (acc @ [v])" by (simp add: laterFree_append)
    from Cons.IH [OF this] obtain ys where
      lf: "laterFree (acceptRoots (acc @ [v]) vs)"
      and ys: "acceptRoots (acc @ [v]) vs = (acc @ [v]) @ ys" "subseq ys vs"
      and cov: "\<forall>u\<in>set vs. \<exists>p\<in>set (acceptRoots (acc @ [v]) vs). under u p" by blast
    from ys have "\<exists>p\<in>set (acceptRoots (acc @ [v]) vs). under v p"
      by (auto intro: under_refl)
    moreover from ys have "acceptRoots (acc @ [v]) vs = acc @ (v # ys) \<and> subseq (v # ys) (v # vs)"
      by simp
    ultimately show ?thesis using False lf cov by auto
  qed
qed

lemmas path_eval = world0_def Set_def covered_def Clean_def IsAbs_def Separator_def
  HasPrefix_def Abs_def subpath_def under_def elements_def properRoot_def

text \<open>
  C3 (as stated): after all registrations no retained root is a sub-path of another
  retained root, whatever the order in which a root and its descendant are supplied.
  This fails: \<^verbatim>\<open>Set\<close> only tests the new value against the roots already in the list and
  never removes a root. With \<^verbatim>\<open>--watcher /a/b --watcher /a\<close> both roots are retained, and
  \<^verbatim>\<open>/a/b\<close> lies under \<^verbatim>\<open>/a\<close>, by the boundary-aware prefix test as by its elements.
\<close>

theorem roots_order_counterexample:
  "setAll world0 0 [] [''/a/b'', ''/a''] = Inr [''/a/b'', ''/a''] \<and>
   subpath ''/a/b'' ''/a'' \<and> under ''/a/b'' ''/a''"
  by (simp add: path_eval)

text \<open>
  C3 (amended): for every sequence of registrations of existing directories given by
  absolute paths other than the root directory, \<^verbatim>\<open>Set\<close> retains what \<open>acceptRoots\<close> accepts:
  a supplied root is ignored exactly when it is, or lies below, a root retained before it.
  So no retained root is or lies below a root retained before it, every supplied root is
  or lies below a retained root, and the retained roots are supplied roots in the order
  in which they were supplied. For a root and one of its descendants: when the ancestor
  is supplied first only the ancestor is retained; when the descendant is supplied first
  both are retained.
\<close>

theorem roots_retained:
  assumes "\<forall>v\<in>set vs. properRoot v \<and> Stat w now v = Inr True"
  shows "setAll w now [] vs = Inr (acceptRoots [] (map Clean vs)) \<and>
         (\<forall>j<length (acceptRoots [] (map Clean vs)). \<forall>i<j.
            \<not> under (acceptRoots [] (map Clean vs) ! j) (acceptRoots [] (map Clean vs) ! i)) \<and>
         (\<forall>v\<in>set vs. \<exists>p\<in>set (acceptRoots [] (map Clean vs)). under (Clean v) p) \<and>
         subseq (acceptRoots [] (map Clean vs)) (map Clean vs) \<and>
         (\<forall>a d. vs = [a, d] \<and> under (Clean d) (Clean a) \<longrightarrow>
            setAll w now [] vs = Inr [Clean a]) \<and>
         (\<forall>a d. vs = [d, a] \<and> under (Clean d) (Clean a) \<and> \<not> under (Clean a) (Clean d) \<longrightarrow>
            setAll w now [] vs = Inr [Clean d, Clean a])"
proof -
  let ?wl = "acceptRoots [] (map Clean vs)"
  have eq: "setAll w now [] vs = Inr ?wl"
    using assms by (intro setAll_accept) simp_all
  from acceptRoots_props [of "[]" "map Clean vs"] obtain ys where
    lf: "laterFree ?wl" and ys: "?wl = [] @ ys" "subseq ys (map Clean vs)"
    and cov: "\<forall>v\<in>set (map Clean vs). \<exists>p\<in>set ?wl. under v p" by auto
  have two1: "setAll w now [] vs = Inr [Clean a]"
    if "vs = [a, d]" "under (Clean d) (Clean a)" for a d
    using eq that by simp
  have two2: "setAll w now [] vs = Inr [Clean d, Clean a]"
    if "vs = [d, a]" "\<not> under (Clean a) (Clean d)" for a d
    using eq that by simp
  from eq lf ys cov two1 two2 show ?thesis
    by (auto dest: laterFree_nth)
qed


theorem roots_retained_witness:
  "setAll world0 0 [] [''/a'', ''/a/b'', ''/ab''] = Inr [''/a'', ''/ab''] \<and>
   setAll world0 0 [] [''/data'', ''/data/sub''] = Inr [''/data''] \<and>
   setAll world0 0 [] [''/data/sub'', ''/data''] = Inr [''/data/sub'', ''/data'']"
proof -
  have h1: "\<forall>v\<in>set [''/a'', ''/a/b'', ''/ab'']. properRoot v \<and> Stat world0 0 v = Inr True"
    by (simp add: path_eval)
  have h2: "\<forall>v\<in>set [''/data'', ''/data/sub'']. properRoot v \<and> Stat world0 0 v = Inr True"
    by (simp add: path_eval)
  have h3: "\<forall>v\<in>set [''/data/sub'', ''/data'']. properRoot v \<and> Stat world0 0 v = Inr True"
    by (simp add: path_eval)
  have a: "setAll world0 0 [] [''/a'', ''/a/b'', ''/ab''] =
             Inr (acceptRoots [] (map Clean [''/a'', ''/a/b'', ''/ab'']))"
    using roots_retained [OF h1] by (rule conjunct1)
  have u: "under (Clean ''/data/sub'') (Clean ''/data'')"
    and nu: "\<not> under (Clean ''/data'') (Clean ''/data/sub'')"
    by (simp_all add: path_eval)
  have "\<forall>a d. [''/data'', ''/data/sub''] = [a, d] \<and> under (Clean d) (Clean a) \<longrightarrow>
          setAll world0 0 [] [''/data'', ''/data/sub''] = Inr [Clean a]"
    using roots_retained [OF h2] by blast
  with u have b: "setAll world0 0 [] [''/data'', ''/data/sub''] = Inr [Clean ''/data'']"
    by blast
  have "\<forall>a d. [''/data/sub'', ''/data''] = [d, a] \<and> under (Clean d) (Clean a) \<and>
            \<not> under (Clean a) (Clean d) \<longrightarrow>
          setAll world0 0 [] [''/data/sub'', ''/data''] = Inr [Clean d, Clean a]"
    using roots_retained [OF h3] by blast
  with u nu have c: "setAll world0 0 [] [''/data/sub'', ''/data''] =
      Inr [Clean ''/data/sub'', Clean ''/data'']"
    by blast
  from a b c show ?thesis by (simp add: path_eval)
qed

section \<open>Proofs: one burst on one path\<close>

lemma advance_empty: "timers s = [] \<Longrightarrow> advance c w T s = Inr s"
  by (simp add: advance.simps nextTimer_def)

lemma advance_waiting:
  "timers s = [tm] \<Longrightarrow> deadline tm = Some d \<Longrightarrow> T < d \<Longrightarrow> advance c w T s = Inr s"
  by (simp add: advance.simps nextTimer_def expired_def)

lemma processOp_single:
  assumes "timers s = [tm]" and "processOp c w d (captured tm) s = Inr s'"
  shows "timers s' = []"
proof -
  from assms(2) obtain s1 where d: "doProcessing c w d (captured tm) s = Inr s1"
    and s': "s' = s1\<lparr>timers := deleteTimer (Name (captured tm)) (timers s1)\<rparr>"
    by (auto simp: processOp_def split: sum.splits)
  from d have "timers s1 = timers s" by (rule doProcessing_timers)
  with s' assms(1) show ?thesis by (simp add: deleteTimer_def)
qed

lemma advance_fires:
  assumes "timers s = [tm]" and "deadline tm = Some d" and "d \<le> T"
  shows "advance c w T s = processOp c w d (captured tm) s"
proof -
  from assms have nt: "nextTimer T (timers s) = Some tm"
    by (simp add: nextTimer_def expired_def)
  from assms(2) have ft: "fireTime tm = d" by (simp add: fireTime_def)
  show ?thesis
  proof (cases "processOp c w d (captured tm) s")
    case (Inl f)
    with nt ft show ?thesis by (simp add: advance.simps [of c w T s])
  next
    case (Inr s')
    with assms(1) have "timers s' = []" by (rule processOp_single)
    then have "advance c w T s' = Inr s'" by (rule advance_empty)
    with nt ft Inr show ?thesis by (simp add: advance.simps [of c w T s])
  qed
qed

lemma handleEvent_first:
  assumes "timers s = []" and "qualifies ev"
  shows "handleEvent c t ev s =
         s\<lparr>timers := [\<lparr>deadline = Some (t + waitFor), captured = ev\<rparr>],
           logs := logs s @ debugLines c [(t, ev)]\<rparr>"
  using assms
  by (auto simp: handleEvent_def qualifies_def printDebug_def lookupTimer_def Let_def
      resetTimer_def Reset_def Stop_def AfterFunc_def debugLines_def)

lemma handleEvent_again:
  assumes "timers s = [tm]" and "Name (captured tm) = Name ev" and "qualifies ev"
  shows "handleEvent c t ev s =
         s\<lparr>timers := [tm\<lparr>deadline := Some (t + waitFor)\<rparr>],
           logs := logs s @ debugLines c [(t, ev)]\<rparr>"
  using assms
  by (auto simp: handleEvent_def qualifies_def printDebug_def lookupTimer_def Let_def
      resetTimer_def Reset_def debugLines_def)

lemma debugLines_Cons: "debugLines c (x # xs) = debugLines c [x] @ debugLines c xs"
  by (simp add: debugLines_def)

lemma run_burst:
  "timers s = [tm] \<Longrightarrow> Name (captured tm) = p \<Longrightarrow> deadline tm = Some (t + waitFor) \<Longrightarrow>
   burst p t rest \<Longrightarrow>
   run c w rest s =
     Inr (s\<lparr>timers := [tm\<lparr>deadline := Some (lastTime t rest + waitFor)\<rparr>],
            logs := logs s @ debugLines c rest\<rparr>)"
proof (induction rest arbitrary: s tm t)
  case Nil
  then show ?case by (simp add: debugLines_def)
next
  case (Cons x rest)
  obtain t' ev where x: "x = (t', ev)" by (cases x)
  from Cons.prems x have b: "Name ev = p" "qualifies ev" "t' < t + waitFor" "burst p t' rest"
    by simp_all
  from Cons.prems b have adv: "advance c w t' s = Inr s"
    by (intro advance_waiting [where tm = tm and d = "t + waitFor"]) simp_all
  let ?tm' = "tm\<lparr>deadline := Some (t' + waitFor)\<rparr>"
  let ?s' = "s\<lparr>timers := [?tm'], logs := logs s @ debugLines c [(t', ev)]\<rparr>"
  from Cons.prems b have he: "handleEvent c t' ev s = ?s'"
    by (intro handleEvent_again) simp_all
  have "run c w rest ?s' =
     Inr (?s'\<lparr>timers := [?tm'\<lparr>deadline := Some (lastTime t' rest + waitFor)\<rparr>],
            logs := logs ?s' @ debugLines c rest\<rparr>)"
    using Cons.prems b by (intro Cons.IH [where t = t']) simp_all
  with adv he x show ?case
    by (simp add: debugLines_Cons [of c "(t', ev)" rest])
qed

lemma run_whole_burst:
  assumes "timers s = []" and "qualifies e1" and "burst (Name e1) t1 rest"
  shows "run c w ((t1, e1) # rest) s = Inr (pendingState c s t1 e1 rest)"
proof -
  let ?tm = "\<lparr>deadline = Some (t1 + waitFor), captured = e1\<rparr>"
  let ?s1 = "s\<lparr>timers := [?tm], logs := logs s @ debugLines c [(t1, e1)]\<rparr>"
  from assms have adv: "advance c w t1 s = Inr s" by (intro advance_empty)
  from assms have he: "handleEvent c t1 e1 s = ?s1" by (intro handleEvent_first)
  have "run c w rest ?s1 =
     Inr (?s1\<lparr>timers := [?tm\<lparr>deadline := Some (lastTime t1 rest + waitFor)\<rparr>],
            logs := logs ?s1 @ debugLines c rest\<rparr>)"
    using assms by (intro run_burst [where p = "Name e1" and t = t1]) simp_all
  with adv he show ?thesis
    by (simp add: pendingState_def debugLines_Cons [of c "(t1, e1)" rest])
qed

lemma processOp_notify:
  assumes "\<not> Has ev Create"
  shows "\<exists>s'. processOp c w d ev s = Inr s' \<and> scanCalls s' = scanCalls s @ [d] \<and>
     timers s' = deleteTimer (Name ev) (timers s) \<and> watched s' = watched s"
  using assms
  by (auto simp: processOp_def doProcessing_def sendScanRequest_def printInfo_def
      printError_def Let_def split: option.splits)

lemma runBurst_settles:
  assumes "timers s = []" and "qualifies e1" and "burst (Name e1) t1 rest"
    and "lastTime t1 rest + waitFor \<le> T"
  shows "runBurst c w ((t1, e1) # rest) T s =
           processOp c w (lastTime t1 rest + waitFor) e1 (pendingState c s t1 e1 rest)"
proof -
  have r: "run c w ((t1, e1) # rest) s = Inr (pendingState c s t1 e1 rest)"
    using assms(1-3) by (rule run_whole_burst)
  have "advance c w T (pendingState c s t1 e1 rest) =
        processOp c w (lastTime t1 rest + waitFor) (captured \<lparr>deadline = Some (lastTime t1 rest + waitFor), captured = e1\<rparr>) (pendingState c s t1 e1 rest)"
    using assms(4) by (intro advance_fires) (simp_all add: pendingState_def)
  with r show ?thesis by (simp add: runBurst_def)
qed

text \<open>
  C10: for a burst of qualifying events on one path that begins on an idle table, what
  runs when the timer expires is \<^verbatim>\<open>processOp\<close> of the first event of the burst, one quiet
  window after the last event. Of the later events only the times (and, in the debug log,
  the names) enter the state \<open>pendingState\<close> in which it runs: their operations are never
  examined.
\<close>

theorem settle_uses_first_event:
  assumes "timers s = []" and "qualifies e1" and "burst (Name e1) t1 rest"
    and "lastTime t1 rest + waitFor \<le> T"
  shows "runBurst c w ((t1, e1) # rest) T s =
           processOp c w (lastTime t1 rest + waitFor) e1 (pendingState c s t1 e1 rest)"
  using assms by (rule runBurst_settles)

theorem settle_uses_first_event_witness:
  "runBurst config0 world0
     [(0, \<lparr>Name = ''/data/sub'', Op = Create\<rparr>), (50000000, \<lparr>Name = ''/data/sub'', Op = Remove\<rparr>)]
     200000000 idle =
   Inr (idle\<lparr>watched := [''/data/sub''],
          logs := [(INFO, [''New directory detected, now watching directory: '', ''/data/sub''])]\<rparr>)"
proof -
  let ?e1 = "\<lparr>Name = ''/data/sub'', Op = Create\<rparr>"
  let ?rest = "[(50000000, \<lparr>Name = ''/data/sub'', Op = Remove\<rparr>)]"
  have h1: "timers idle = []" by (simp add: idle_def)
  have h2: "qualifies ?e1" by (simp add: qualifies_def Has_def Create_def)
  have h3: "burst (Name ?e1) 0 ?rest"
    by (simp add: qualifies_def Has_def Remove_def waitFor_def)
  have h4: "lastTime 0 ?rest + waitFor \<le> 200000000" by (simp add: waitFor_def)
  have "processOp config0 world0 (lastTime 0 ?rest + waitFor) ?e1
          (pendingState config0 idle 0 ?e1 ?rest) =
        Inr (idle\<lparr>watched := [''/data/sub''],
          logs := [(INFO, [''New directory detected, now watching directory: '', ''/data/sub''])]\<rparr>)"
    by (simp add: processOp_def doProcessing_def pendingState_def debugLines_def config0_def
        idle_def Has_def Create_def printVerbose_def printInfo_def addWatch_def deleteTimer_def
        path_eval)
  with settle_uses_first_event [OF h1 h2 h3 h4, of config0 world0] show ?thesis by simp
qed

text \<open>
  C1: a burst of Write/Remove events on one path, each received less than the quiet
  window after the one before it, beginning on an idle table: up to any time \<open>T\<close>,
  \<^verbatim>\<open>sendScanRequest\<close> has been called exactly once if the quiet window after the last event
  has passed, at the time of the last event plus the quiet window, and not at all before.
\<close>

theorem burst_one_notification:
  assumes "timers s = []"
    and "list_all (\<lambda>(t, ev). writeOrRemove ev) ((t1, e1) # rest)"
    and "burst (Name e1) t1 rest"
  shows "\<exists>sf. runBurst c w ((t1, e1) # rest) T s = Inr sf \<and>
           scanCalls sf =
             (if lastTime t1 rest + waitFor \<le> T
              then scanCalls s @ [lastTime t1 rest + waitFor] else scanCalls s) \<and>
           timers sf =
             (if lastTime t1 rest + waitFor \<le> T then []
              else [\<lparr>deadline = Some (lastTime t1 rest + waitFor), captured = e1\<rparr>])"
proof -
  from assms(2) have q: "qualifies e1" and nc: "\<not> Has e1 Create"
    by (auto simp: writeOrRemove_def qualifies_def)
  let ?sm = "pendingState c s t1 e1 rest"
  have r: "run c w ((t1, e1) # rest) s = Inr ?sm"
    using assms(1) q assms(3) by (rule run_whole_burst)
  show ?thesis
  proof (cases "lastTime t1 rest + waitFor \<le> T")
    case True
    have "runBurst c w ((t1, e1) # rest) T s =
           processOp c w (lastTime t1 rest + waitFor) e1 ?sm"
      using assms(1) q assms(3) True by (rule runBurst_settles)
    moreover from processOp_notify [OF nc, of c w "lastTime t1 rest + waitFor" ?sm]
    obtain s' where "processOp c w (lastTime t1 rest + waitFor) e1 ?sm = Inr s'"
      and "scanCalls s' = scanCalls ?sm @ [lastTime t1 rest + waitFor]"
      and "timers s' = deleteTimer (Name e1) (timers ?sm)" by blast
    ultimately show ?thesis using True by (simp add: pendingState_def deleteTimer_def)
  next
    case False
    have "timers ?sm = [\<lparr>deadline = Some (lastTime t1 rest + waitFor), captured = e1\<rparr>]"
      by (simp add: pendingState_def)
    then have "advance c w T ?sm = Inr ?sm"
      by (rule advance_waiting [where d = "lastTime t1 rest + waitFor"]) (use False in simp_all)
    with r False show ?thesis by (simp add: runBurst_def pendingState_def)
  qed
qed

theorem burst_one_notification_witness:
  "\<exists>sf. runBurst config0 world0
          [(0, \<lparr>Name = ''/data/x.mp4'', Op = Write\<rparr>),
           (10000000, \<lparr>Name = ''/data/x.mp4'', Op = Write\<rparr>),
           (20000000, \<lparr>Name = ''/data/x.mp4'', Op = Write\<rparr>),
           (30000000, \<lparr>Name = ''/data/x.mp4'', Op = Write\<rparr>),
           (40000000, \<lparr>Name = ''/data/x.mp4'', Op = Remove\<rparr>)]
          1000000000 idle = Inr sf \<and>
        scanCalls sf = [140000000] \<and> timers sf = []"
proof -
  let ?w = "\<lparr>Name = ''/data/x.mp4'', Op = Write\<rparr>"
  let ?r = "\<lparr>Name = ''/data/x.mp4'', Op = Remove\<rparr>"
  let ?rest = "[(10000000, ?w), (20000000, ?w), (30000000, ?w), (40000000, ?r)]"
  have h1: "timers idle = []" by (simp add: idle_def)
  have h2: "list_all (\<lambda>(t, ev). writeOrRemove ev) ((0, ?w) # ?rest)"
    by (simp add: writeOrRemove_def Has_def Write_def Remove_def Create_def)
  have h3: "burst (Name ?w) 0 ?rest"
    by (simp add: qualifies_def Has_def Write_def Remove_def waitFor_def)
  from burst_one_notification [OF h1 h2 h3, of config0 world0 1000000000]
  show ?thesis by (simp add: waitFor_def idle_def)
qed

section \<open>Proofs: receipt of an event and the callback\<close>

lemma lookup_resetTimer:
  "lookupTimer name (resetTimer name now d ts) =
     (case lookupTimer name ts of None \<Rightarrow> None | Some t \<Rightarrow> Some (Reset now d t))"
  by (induction ts) (auto simp: lookupTimer_def resetTimer_def Reset_def)

lemma lookup_append_new:
  "lookupTimer name ts = None \<Longrightarrow> Name (captured t) = name \<Longrightarrow>
   lookupTimer name (ts @ [t]) = Some t"
  by (induction ts) (auto simp: lookupTimer_def split: if_splits)

lemma lookup_deleteTimer: "lookupTimer name (deleteTimer name ts) = None"
  by (induction ts) (auto simp: lookupTimer_def deleteTimer_def)

lemma handleEvent_entry:
  assumes "qualifies ev"
  shows "lookupTimer (Name ev) (timers (handleEvent c now ev s)) =
           Some \<lparr>deadline = Some (now + waitFor),
                 captured = (case lookupTimer (Name ev) (timers s) of
                               None \<Rightarrow> ev | Some t \<Rightarrow> captured t)\<rparr> \<and>
         watched (handleEvent c now ev s) = watched s \<and>
         scanCalls (handleEvent c now ev s) = scanCalls s \<and>
         posts (handleEvent c now ev s) = posts s"
proof (cases "lookupTimer (Name ev) (timers s)")
  case None
  then have "lookupTimer (Name ev) (timers s @ [Stop (AfterFunc now MaxInt64 ev)]) =
      Some (Stop (AfterFunc now MaxInt64 ev))"
    by (rule lookup_append_new) (simp add: Stop_def AfterFunc_def)
  with None assms show ?thesis
    by (auto simp: handleEvent_def qualifies_def printDebug_def Let_def lookup_resetTimer
        Reset_def Stop_def AfterFunc_def)
next
  case (Some t)
  with assms show ?thesis
    by (auto simp: handleEvent_def qualifies_def printDebug_def Let_def lookup_resetTimer
        Reset_def)
qed

text \<open>
  C2 (as stated): the classifier runs at receipt, and a Create of a directory never gets an
  entry in the timer table. This fails: the loop of \<^verbatim>\<open>dedupLoop\<close> looks at nothing but the
  operation bits and the name of an event, and gives every Create, Write or Remove event
  an entry; \<^verbatim>\<open>os.Stat\<close> is called in \<^verbatim>\<open>processOp\<close>, when the timer fires. A Create of the
  directory \<^verbatim>\<open>/data/sub\<close> received on an idle table leaves an armed timer for the path.
\<close>

theorem directory_create_enters_table_counterexample:
  "Has \<lparr>Name = ''/data/sub'', Op = Create\<rparr> Create \<and>
   Abs world0 ''/data/sub'' = Inr ''/data/sub'' \<and>
   Stat world0 0 ''/data/sub'' = Inr True \<and>
   timers (handleEvent config0 0 \<lparr>Name = ''/data/sub'', Op = Create\<rparr> idle) =
     [\<lparr>deadline = Some 100000000, captured = \<lparr>Name = ''/data/sub'', Op = Create\<rparr>\<rparr>]"
  by (simp add: handleEvent_def Has_def Create_def Write_def Remove_def config0_def idle_def
      printDebug_def lookupTimer_def resetTimer_def Reset_def Stop_def AfterFunc_def
      waitFor_def path_eval)

text \<open>
  C2 (amended): for every incoming Create, Write or Remove event the debounce bookkeeping
  runs at receipt and nothing is classified there (\<open>handleEvent\<close> does not read the
  environment): afterwards the table holds an entry for the path, armed one quiet window
  after the receipt, whose captured event is the one of the entry that was there, or the
  incoming event when there was none; nothing is registered and no notification is made
  at receipt. This holds for a Create of a directory as for any other event.
\<close>

theorem receipt_only_debounces:
  assumes "qualifies ev"
  shows "lookupTimer (Name ev) (timers (handleEvent c now ev s)) =
           Some \<lparr>deadline = Some (now + waitFor),
                 captured = (case lookupTimer (Name ev) (timers s) of
                               None \<Rightarrow> ev | Some t \<Rightarrow> captured t)\<rparr> \<and>
         watched (handleEvent c now ev s) = watched s \<and>
         scanCalls (handleEvent c now ev s) = scanCalls s \<and>
         posts (handleEvent c now ev s) = posts s"
  using assms by (rule handleEvent_entry)

theorem receipt_only_debounces_witness:
  "lookupTimer ''/data/x'' (timers (handleEvent config0 70000000 \<lparr>Name = ''/data/x'', Op = Create\<rparr>
      (idle\<lparr>timers := [\<lparr>deadline = Some 100000000, captured = \<lparr>Name = ''/data/x'', Op = Write\<rparr>\<rparr>]\<rparr>))) =
     Some \<lparr>deadline = Some 170000000, captured = \<lparr>Name = ''/data/x'', Op = Write\<rparr>\<rparr>"
proof -
  have h: "qualifies \<lparr>Name = ''/data/x'', Op = Create\<rparr>"
    by (simp add: qualifies_def Has_def Create_def)
  from receipt_only_debounces [OF h, of config0 70000000
      "idle\<lparr>timers := [\<lparr>deadline = Some 100000000, captured = \<lparr>Name = ''/data/x'', Op = Write\<rparr>\<rparr>]\<rparr>"]
  show ?thesis by (simp add: lookupTimer_def waitFor_def)
qed

text \<open>
  C4 (as stated): for every Create event whose path stats as a directory, the path is
  registered with the event source. This fails when \<^verbatim>\<open>wat.Add\<close> returns an error (the
  limit of inotify watches is reached, say): \<^verbatim>\<open>processOp\<close> then calls \<^verbatim>\<open>log.Fatal\<close>, the
  process ends and the path is not watched.
\<close>

theorem registration_failure_counterexample:
  "Has \<lparr>Name = ''/data/sub'', Op = Create\<rparr> Create \<and>
   Stat (world0\<lparr>WatAdd := (\<lambda>_ _. Some (Err ''no space left on device''))\<rparr>) 100000000 ''/data/sub'' = Inr True \<and>
   processOp config0 (world0\<lparr>WatAdd := (\<lambda>_ _. Some (Err ''no space left on device''))\<rparr>)
     100000000 \<lparr>Name = ''/data/sub'', Op = Create\<rparr> idle =
     Inl (Err ''no space left on device'', idle) \<and>
   watched idle = []"
  by (simp add: processOp_def doProcessing_def config0_def idle_def Has_def Create_def
      printVerbose_def path_eval)

text \<open>
  C4 (amended): for every Create event that \<^verbatim>\<open>processOp\<close> handles and whose path stats as a
  directory, no notification call is made for that event, and the path is registered with
  the event source (it is among the watched paths afterwards) unless \<^verbatim>\<open>wat.Add\<close> fails, in
  which case the process is terminated by \<^verbatim>\<open>log.Fatal\<close>.
\<close>

theorem directory_create_registers:
  assumes "Has ev Create" and "Abs w (Name ev) = Inr a" and "Stat w now a = Inr True"
  shows "(case processOp c w now ev s of
            Inl (e, s') \<Rightarrow> WatAdd w now a = Some e \<and> scanCalls s' = scanCalls s
          | Inr s' \<Rightarrow>
              WatAdd w now a = None \<and> a \<in> set (watched s') \<and>
              scanCalls s' = scanCalls s \<and> posts s' = posts s)"
  using assms
  by (auto simp: processOp_def doProcessing_def printVerbose_def printInfo_def addWatch_def
      Let_def split: option.splits)

theorem directory_create_registers_witness:
  "processOp config0 world0 100000000 \<lparr>Name = ''/data/sub'', Op = Create\<rparr> idle =
     Inr (idle\<lparr>watched := [''/data/sub''],
          logs := [(INFO, [''New directory detected, now watching directory: '', ''/data/sub''])]\<rparr>)"
proof -
  have h1: "Has \<lparr>Name = ''/data/sub'', Op = Create\<rparr> Create" by (simp add: Has_def Create_def)
  have h2: "Abs world0 (Name \<lparr>Name = ''/data/sub'', Op = Create\<rparr>) = Inr ''/data/sub''"
    by (simp add: path_eval)
  have h3: "Stat world0 100000000 ''/data/sub'' = Inr True" by (simp add: world0_def)
  from directory_create_registers [OF h1 h2 h3, where c = config0 and s = idle]
  show ?thesis
    by (simp add: processOp_def doProcessing_def config0_def idle_def Has_def Create_def
        printVerbose_def printInfo_def addWatch_def deleteTimer_def path_eval)
qed

text \<open>
  C5: when the callback of a timer has run, the entry of the path is gone from the timer
  table, whatever happened in the callback (an error of \<^verbatim>\<open>filepath.Abs\<close> or \<^verbatim>\<open>os.Stat\<close>, a
  failed request); a later event for the same path is then handled as a first event: the
  table gets a new timer that holds this later event. The callback does not return only
  when \<^verbatim>\<open>wat.Add\<close> fails on a new directory, where \<^verbatim>\<open>log.Fatal\<close> ends the process.
\<close>

theorem entry_cleared_after_action:
  "(case processOp c w now ev s of
      Inl (e, s') \<Rightarrow>
        Has ev Create \<and>
        (\<exists>a. Abs w (Name ev) = Inr a \<and> Stat w now a = Inr True \<and> WatAdd w now a = Some e)
    | Inr s' \<Rightarrow>
        lookupTimer (Name ev) (timers s') = None \<and>
        (\<forall>ev2 t2. qualifies ev2 \<and> Name ev2 = Name ev \<longrightarrow>
           lookupTimer (Name ev) (timers (handleEvent c t2 ev2 s')) =
             Some \<lparr>deadline = Some (t2 + waitFor), captured = ev2\<rparr>))"
proof (cases "processOp c w now ev s")
  case (Inl f)
  then show ?thesis
    by (auto simp: processOp_def doProcessing_def Let_def
        split: sum.splits if_splits option.splits)
next
  case (Inr s')
  then obtain s1 where "doProcessing c w now ev s = Inr s1"
    and s': "s' = s1\<lparr>timers := deleteTimer (Name ev) (timers s1)\<rparr>"
    by (auto simp: processOp_def split: sum.splits)
  then have gone: "lookupTimer (Name ev) (timers s') = None"
    by (simp add: lookup_deleteTimer)
  have "lookupTimer (Name ev) (timers (handleEvent c t2 ev2 s')) =
      Some \<lparr>deadline = Some (t2 + waitFor), captured = ev2\<rparr>"
    if "qualifies ev2" and "Name ev2 = Name ev" for ev2 t2
    using handleEvent_entry [OF that(1), of c t2 s'] gone that(2) by simp
  with gone Inr show ?thesis by simp
qed

theorem entry_cleared_after_action_witness:
  "processOp config0 (world0\<lparr>Stat := (\<lambda>_ _. Inl (Err ''no such file or directory''))\<rparr>) 100000000
     \<lparr>Name = ''/data/x'', Op = Create\<rparr>
     (idle\<lparr>timers := [\<lparr>deadline = Some 100000000, captured = \<lparr>Name = ''/data/x'', Op = Create\<rparr>\<rparr>]\<rparr>) =
   Inr (idle\<lparr>logs := [(ERROR, [''error: could not stat file'', ''no such file or directory''])]\<rparr>) \<and>
   lookupTimer ''/data/x''
     (timers (handleEvent config0 300000000 \<lparr>Name = ''/data/x'', Op = Write\<rparr>
        (idle\<lparr>logs := [(ERROR, [''error: could not stat file'', ''no such file or directory''])]\<rparr>))) =
   Some \<lparr>deadline = Some (300000000 + waitFor), captured = \<lparr>Name = ''/data/x'', Op = Write\<rparr>\<rparr>"
proof -
  let ?w = "world0\<lparr>Stat := (\<lambda>_ _. Inl (Err ''no such file or directory''))\<rparr>"
  let ?ev = "\<lparr>Name = ''/data/x'', Op = Create\<rparr>"
  let ?s = "idle\<lparr>timers := [\<lparr>deadline = Some 100000000, captured = ?ev\<rparr>]\<rparr>"
  let ?s' = "idle\<lparr>logs := [(ERROR, [''error: could not stat file'', ''no such file or directory''])]\<rparr>"
  have p: "processOp config0 ?w 100000000 ?ev ?s = Inr ?s'"
    by (simp add: processOp_def doProcessing_def config0_def idle_def Has_def Create_def
        printVerbose_def printError_def msg_def deleteTimer_def path_eval)
  have q: "qualifies \<lparr>Name = ''/data/x'', Op = Write\<rparr>"
    by (simp add: qualifies_def Has_def Write_def)
  from entry_cleared_after_action [where c = config0 and w = ?w and now = 100000000 and ev = ?ev and s = ?s] p
  have "\<forall>ev2 t2. qualifies ev2 \<and> Name ev2 = Name ?ev \<longrightarrow>
           lookupTimer (Name ?ev) (timers (handleEvent config0 t2 ev2 ?s')) =
             Some \<lparr>deadline = Some (t2 + waitFor), captured = ev2\<rparr>"
    by simp
  from this [rule_format, of "\<lparr>Name = ''/data/x'', Op = Write\<rparr>" 300000000] q p
  show ?thesis by simp
qed

lemma doProcessing_cannotStat:
  assumes "Has ev Create" and "cannotStat w now ev"
  shows "\<exists>args. doProcessing c w now ev s =
           Inr (printError args (printVerbose c [''created path item:'', Name ev] s))"
  using assms
  by (auto simp: doProcessing_def cannotStat_def Let_def split: sum.splits)

text \<open>
  C6: a Create event whose absolute path cannot be resolved or whose path cannot be
  stat'ed is logged as an error and dropped: \<^verbatim>\<open>processOp\<close> returns (the process keeps
  running), no notification call is made, nothing is posted and no watch is added.
\<close>

theorem create_stat_failure_dropped:
  assumes "Has ev Create" and "cannotStat w now ev"
  shows "\<exists>s' args. processOp c w now ev s = Inr s' \<and>
           scanCalls s' = scanCalls s \<and> posts s' = posts s \<and> watched s' = watched s \<and>
           logs s' = logs (printVerbose c [''created path item:'', Name ev] s) @ [(ERROR, args)] \<and>
           timers s' = deleteTimer (Name ev) (timers s)"
proof -
  from doProcessing_cannotStat [OF assms, where c = c and s = s] obtain args where
    "doProcessing c w now ev s =
       Inr (printError args (printVerbose c [''created path item:'', Name ev] s))" ..
  then show ?thesis
    by (auto simp: processOp_def printError_def printVerbose_def)
qed

theorem create_stat_failure_dropped_witness:
  "processOp config0 (world0\<lparr>Stat := (\<lambda>_ _. Inl (Err ''no such file or directory''))\<rparr>) 100000000
     \<lparr>Name = ''/data/gone'', Op = Create\<rparr> idle =
   Inr (idle\<lparr>logs := [(ERROR, [''error: could not stat file'', ''no such file or directory''])]\<rparr>)"
proof -
  let ?w = "world0\<lparr>Stat := (\<lambda>_ _. Inl (Err ''no such file or directory''))\<rparr>"
  let ?ev = "\<lparr>Name = ''/data/gone'', Op = Create\<rparr>"
  have h1: "Has ?ev Create" by (simp add: Has_def Create_def)
  have h2: "cannotStat ?w 100000000 ?ev" by (simp add: cannotStat_def path_eval)
  from create_stat_failure_dropped [OF h1 h2, where c = config0 and s = idle]
  show ?thesis
    by (simp add: processOp_def doProcessing_def config0_def idle_def Has_def Create_def
        printVerbose_def printError_def msg_def deleteTimer_def path_eval)
qed

section \<open>Proofs: enumeration and start of the process\<close>

lemma watch_prune:
  "dropErr (watchSubdirs c w now d t s) = dropErr (watchSubdirs c w now d (pruneDir t) s)"
  "watchEntries c w now d es s = watchEntries c w now d (pruneEntries es) s"
proof (induction c w now d t s and c w now d es s rule: watchSubdirs_watchEntries.induct)
  case (1 c w now d e s)
  then show ?case by (simp add: dropErr_def)
next
  case (2 c w now d es s)
  then show ?case by (simp add: dropErr_def)
next
  case (3 c w now d s)
  then show ?case by simp
next
  case (4 c w now d n es s)
  then show ?case by simp
next
  case (5 c w now d n sub es s)
  show ?case
  proof (cases "WatAdd w now (Join d n)")
    case (Some e)
    then show ?thesis by simp
  next
    case None
    let ?s1 = "printVerbose c [''Now watching'', Join d n]
                 (s\<lparr>watched := addWatch (Join d n) (watched s)\<rparr>)"
    from 5(1) [OF None]
    have eq: "dropErr (watchSubdirs c w now (Join d n) sub ?s1) =
              dropErr (watchSubdirs c w now (Join d n) (pruneDir sub) ?s1)" .
    show ?thesis
    proof (cases "watchSubdirs c w now (Join d n) sub ?s1")
      case (Inl f)
      with eq None show ?thesis
        by (auto simp: dropErr_def split: sum.splits prod.splits)
    next
      case (Inr r)
      obtain eo s' where r: "r = (eo, s')" by (cases r)
      from 5(2) [OF None Inr r [symmetric]]
      have "watchEntries c w now d es s' = watchEntries c w now d (pruneEntries es) s'" .
      with eq None Inr r show ?thesis
        by (auto simp: dropErr_def split: sum.splits prod.splits)
    qed
  qed
qed

lemma Abs_ReadTree: "Abs (w\<lparr>ReadTree := f\<rparr>) v = Abs w v"
  by (simp add: Abs_def)

lemma Set_ReadTree: "Set (w\<lparr>ReadTree := f\<rparr>) now wl v = Set w now wl v"
  by (simp add: Set_def Abs_ReadTree split: sum.splits)

lemma setAll_ReadTree: "setAll (w\<lparr>ReadTree := f\<rparr>) now wl vs = setAll w now wl vs"
  by (induction vs arbitrary: wl) (simp_all add: Set_ReadTree split: prod.splits option.splits)

lemma watch_ReadTree:
  "watchSubdirs c (w\<lparr>ReadTree := f\<rparr>) now d t s = watchSubdirs c w now d t s"
  "watchEntries c (w\<lparr>ReadTree := f\<rparr>) now d es s = watchEntries c w now d es s"
  by (induction c w now d t s and c w now d es s rule: watchSubdirs_watchEntries.induct)
    (simp_all split: option.splits sum.splits prod.splits)

lemma startRoots_ReadTree:
  "startRoots (w\<lparr>ReadTree := f\<rparr>) now rs m = startRoots w now rs m"
  by (induction rs arbitrary: m) (simp_all split: option.splits)

lemma main_ReadTree: "main p c (w\<lparr>ReadTree := f\<rparr>) now = main p c w now"
  by (simp add: main_def setAll_ReadTree startRoots_ReadTree split: sum.splits)

lemma goWatchSubdirs_prune:
  "goWatchSubdirs c (w\<lparr>ReadTree := (\<lambda>r. pruneDir (ReadTree w r))\<rparr>) now r s =
   goWatchSubdirs c w now r s"
  using watch_prune(1) [of c w now r "ReadTree w r" s]
  by (simp add: goWatchSubdirs_def watch_ReadTree)

lemma enumerations_prune:
  "enumerations c (w\<lparr>ReadTree := (\<lambda>r. pruneDir (ReadTree w r))\<rparr>) now ws ended =
   enumerations c w now ws ended"
proof (induction ws arbitrary: ended)
  case Nil
  then show ?case by simp
next
  case (Cons x ws)
  obtain r s where x: "x = (r, s)" by (cases x)
  show ?case unfolding x
    by (simp add: goWatchSubdirs_prune Cons.IH split: sum.splits prod.splits)
qed

lemma mainEnumerated_prune:
  "mainEnumerated p c (w\<lparr>ReadTree := (\<lambda>r. pruneDir (ReadTree w r))\<rparr>) now =
   mainEnumerated p c w now"
  by (simp add: mainEnumerated_def main_ReadTree enumerations_prune
      split: prod.splits outcome.splits)

lemmas start_eval = program_def init_def main_def process0_def config0_def idle_def
  tickerPeriod_def Atoi_def isDigit_def Minute_def printInfo_def printVerbose_def addWatch_def
  noneRunning_def mainEnumerated_def goWatchSubdirs_def dropErr_def

text \<open>
  C7 (as stated): a failure to list the root that is enumerated is reported as a fatal
  startup error. This fails: \<^verbatim>\<open>watchSubdirs\<close> returns the error of \<^verbatim>\<open>os.ReadDir\<close>, but \<^verbatim>\<open>main\<close>
  starts it with \<^verbatim>\<open>go watchSubdirs(w, wat)\<close> and the returned value is lost. With a root
  that cannot be listed \<^verbatim>\<open>main\<close> gets to its wait for the signal, and the process is still
  serving when the enumeration has ended.
\<close>

theorem unreadable_root_counterexample:
  "watchSubdirs config0 world0 0 ''/data'' (Unreadable (Err ''permission denied'')) idle =
     Inr (Some (Err ''permission denied''), idle) \<and>
   program process0 (world0\<lparr>ReadTree := (\<lambda>_. Unreadable (Err ''permission denied''))\<rparr>) 0 =
     (Serving 1800000000000,
      \<lparr>goroutines = [DedupLoop ''/data'', WatchSubdirs ''/data''],
       watchers = [(''/data'', idle\<lparr>watched := [''/data''],
                      logs := [(INFO, [''Initial watcher started at:'', ''/data''])]\<rparr>)]\<rparr>) \<and>
   mainEnumerated process0 config0
     (world0\<lparr>ReadTree := (\<lambda>_. Unreadable (Err ''permission denied''))\<rparr>) 0 =
     (Serving 1800000000000,
      \<lparr>goroutines = [DedupLoop ''/data'', WatchSubdirs ''/data''],
       watchers = [(''/data'', idle\<lparr>watched := [''/data''],
                      logs := [(INFO, [''Initial watcher started at:'', ''/data''])]\<rparr>)]\<rparr>)"
  by (simp add: start_eval path_eval)

text \<open>
  C7 (amended): during the recursive enumeration a failure to list a directory ends the
  enumeration of that directory only, and it is never fatal: \<^verbatim>\<open>watchSubdirs\<close> returns the
  error for the directory it was called on and leaves the state as it is, the loop over
  the entries goes on as if a subdirectory that cannot be listed were empty, and \<^verbatim>\<open>main\<close>,
  the enumeration goroutine of a root, and the process once its enumerations have ended
  all behave as if every directory that cannot be listed (the root too) were empty.
\<close>

theorem listing_failure_not_fatal:
  "watchSubdirs c w now d (Unreadable e) s = Inr (Some e, s) \<and>
   watchEntries c w now d es s = watchEntries c w now d (pruneEntries es) s \<and>
   main p c (w\<lparr>ReadTree := (\<lambda>r. pruneDir (ReadTree w r))\<rparr>) now = main p c w now \<and>
   goWatchSubdirs c (w\<lparr>ReadTree := (\<lambda>r. pruneDir (ReadTree w r))\<rparr>) now r s =
     goWatchSubdirs c w now r s \<and>
   mainEnumerated p c (w\<lparr>ReadTree := (\<lambda>r. pruneDir (ReadTree w r))\<rparr>) now =
     mainEnumerated p c w now"
  using watch_prune(2) [of c w now d es s]
  by (simp add: main_ReadTree goWatchSubdirs_prune mainEnumerated_prune)

lemma digitsValue_None: "\<not> list_all isDigit s \<Longrightarrow> digitsValue acc s = None"
  by (induction s arbitrary: acc) auto

lemma Atoi_not_integer:
  assumes "\<not> isInteger v"
  shows "\<exists>e. Atoi v = Inl e"
proof (cases v)
  case Nil
  then show ?thesis by (simp add: Atoi_def)
next
  case (Cons ch cs)
  show ?thesis
  proof (cases "ch = CHR ''-'' \<or> ch = CHR ''+''")
    case True
    with assms Cons have "cs = [] \<or> \<not> list_all isDigit cs" by (auto simp: isInteger_def)
    then have "cs = [] \<or> digitsValue 0 cs = None" using digitsValue_None [of cs 0] by auto
    with True Cons show ?thesis by (auto simp: Atoi_def Let_def)
  next
    case False
    with assms Cons have "\<not> list_all isDigit (ch # cs)" by (auto simp: isInteger_def)
    then have "digitsValue 0 (ch # cs) = None" by (rule digitsValue_None)
    with False Cons show ?thesis by (simp add: Atoi_def Let_def)
  qed
qed

lemma Set_bad: "Stat w now v \<noteq> Inr True \<Longrightarrow> \<exists>e. Set w now wl v = (Some e, wl)"
  by (cases "Stat w now v") (auto simp: Set_def)

lemma setAll_bad:
  "\<exists>v\<in>set vs. Stat w now v \<noteq> Inr True \<Longrightarrow> \<exists>e. setAll w now wl vs = Inl e"
proof (induction vs arbitrary: wl)
  case Nil
  then show ?case by simp
next
  case (Cons v vs)
  show ?case
  proof (cases "Stat w now v = Inr True")
    case False
    from Set_bad [OF this, of wl] show ?thesis by auto
  next
    case True
    with Cons.prems have "\<exists>v\<in>set vs. Stat w now v \<noteq> Inr True" by auto
    from Cons.IH [OF this] show ?thesis
      by (auto split: prod.splits option.splits)
  qed
qed

lemma program_bad_interval:
  assumes "envInterval p = Some v" and "\<not> isInteger v"
  shows "\<exists>x m. program p w now = (Exited x, m)"
proof (cases "init p")
  case (Inl e)
  then show ?thesis by (simp add: program_def)
next
  case (Inr c)
  with assms(1) have "scheduledScanIntervalMinsEnv c = v"
    by (auto simp: init_def split: option.splits)
  with Atoi_not_integer [OF assms(2)] obtain e where "tickerPeriod c = Inl (LogFatal e)"
    by (auto simp: tickerPeriod_def)
  with Inr show ?thesis
    by (auto simp: program_def main_def split: sum.splits prod.splits option.splits)
qed

lemma startRoots_all:
  "NewWatcher w = None \<Longrightarrow> \<forall>r\<in>set rs. WatAdd w now r = None \<Longrightarrow>
   startRoots w now rs m =
     (None, \<lparr>goroutines = goroutines m @ rootGoroutines rs,
             watchers = watchers m @ rootWatchers rs\<rparr>)"
proof (induction rs arbitrary: m)
  case Nil
  then show ?case by (simp add: rootGoroutines_def rootWatchers_def)
next
  case (Cons r rs)
  then show ?case by (simp add: rootGoroutines_def rootWatchers_def)
qed

lemma program_bad_interval_late:
  assumes iv: "envInterval p = Some v" and ni: "\<not> isInteger v"
    and ep: "envEndpoint p \<noteq> None"
    and sa: "setAll w now [] (watcherArgs p) = Inr wl" and ne: "wl \<noteq> []"
    and oa: "otherArgs p = []"
    and nw: "NewWatcher w = None" and wa: "\<forall>r\<in>set wl. WatAdd w now r = None"
  shows "\<exists>e. Atoi v = Inl e \<and>
           program p w now =
             (Exited (LogFatal e),
              \<lparr>goroutines = rootGoroutines wl, watchers = rootWatchers wl\<rparr>)"
proof -
  from ep obtain c where c: "init p = Inr c" by (auto simp: init_def)
  with iv have "scheduledScanIntervalMinsEnv c = v"
    by (auto simp: init_def split: option.splits)
  with Atoi_not_integer [OF ni] obtain e where e: "Atoi v = Inl e"
    and tp: "tickerPeriod c = Inl (LogFatal e)"
    by (auto simp: tickerPeriod_def)
  have "startRoots w now wl noneRunning =
      (None, \<lparr>goroutines = rootGoroutines wl, watchers = rootWatchers wl\<rparr>)"
    using startRoots_all [OF nw wa, of noneRunning] by (simp add: noneRunning_def)
  with c sa ne oa tp have "program p w now =
      (Exited (LogFatal e), \<lparr>goroutines = rootGoroutines wl, watchers = rootWatchers wl\<rparr>)"
    by (simp add: program_def main_def)
  with e show ?thesis by blast
qed

text \<open>
  C8 (as stated): also with a scan interval that is not a valid integer the process ends
  before the watch loop is entered. This fails: \<^verbatim>\<open>main\<close> parses the interval (line 352)
  after its loop over the roots, which has started \<^verbatim>\<open>dedupLoop\<close> for every root (line 341),
  added the root and started the enumeration.
\<close>

theorem bad_interval_after_loops_counterexample:
  "program (process0\<lparr>envInterval := Some ''abc''\<rparr>) world0 0 =
     (Exited (LogFatal (Err ''invalid syntax'')),
      \<lparr>goroutines = [DedupLoop ''/data'', WatchSubdirs ''/data''],
       watchers = [(''/data'', idle\<lparr>watched := [''/data''],
                      logs := [(INFO, [''Initial watcher started at:'', ''/data''])]\<rparr>)]\<rparr>)"
  by (simp add: start_eval path_eval)

text \<open>
  C8 (amended): each fatal configuration error ends the process during the start. With no
  watch root, or with a supplied root that does not exist or is not a directory, the
  process ends before a watcher is made or a goroutine is started. With a scan interval
  that is not a valid integer the process never gets to the ticker and the wait for the
  signal; and when nothing else fails (the endpoint is set, the roots are accepted, there
  is no other argument, the watchers can be made and the roots added), it ends by the
  \<^verbatim>\<open>log.Fatal\<close> of the interval only after the loop over the roots: for every root \<^verbatim>\<open>dedupLoop\<close>
  has been started, the root is watched and its enumeration has been started.
\<close>

theorem fatal_configuration:
  "(watcherArgs p = [] \<longrightarrow> (\<exists>x. program p w now = (Exited x, noneRunning))) \<and>
   ((\<exists>v\<in>set (watcherArgs p). Stat w now v \<noteq> Inr True) \<longrightarrow>
      (\<exists>x. program p w now = (Exited x, noneRunning))) \<and>
   (\<forall>v. envInterval p = Some v \<and> \<not> isInteger v \<longrightarrow>
      (\<exists>x m. program p w now = (Exited x, m)) \<and>
      (\<forall>wl. envEndpoint p \<noteq> None \<and> setAll w now [] (watcherArgs p) = Inr wl \<and> wl \<noteq> [] \<and>
            otherArgs p = [] \<and> NewWatcher w = None \<and> (\<forall>r\<in>set wl. WatAdd w now r = None) \<longrightarrow>
         (\<exists>e. Atoi v = Inl e \<and>
              program p w now =
                (Exited (LogFatal e),
                 \<lparr>goroutines = rootGoroutines wl, watchers = rootWatchers wl\<rparr>))))"
proof (intro conjI allI impI)
  assume "watcherArgs p = []"
  then show "\<exists>x. program p w now = (Exited x, noneRunning)"
    by (simp add: program_def main_def split: sum.splits)
next
  assume "\<exists>v\<in>set (watcherArgs p). Stat w now v \<noteq> Inr True"
  from setAll_bad [OF this, of "[]"] show "\<exists>x. program p w now = (Exited x, noneRunning)"
    by (auto simp: program_def main_def split: sum.splits)
next
  fix v assume "envInterval p = Some v \<and> \<not> isInteger v"
  then show "\<exists>x m. program p w now = (Exited x, m)"
    by (auto dest: program_bad_interval)
next
  fix v wl
  assume "envInterval p = Some v \<and> \<not> isInteger v"
    and "envEndpoint p \<noteq> None \<and> setAll w now [] (watcherArgs p) = Inr wl \<and> wl \<noteq> [] \<and>
         otherArgs p = [] \<and> NewWatcher w = None \<and> (\<forall>r\<in>set wl. WatAdd w now r = None)"
  then show "\<exists>e. Atoi v = Inl e \<and>
      program p w now =
        (Exited (LogFatal e), \<lparr>goroutines = rootGoroutines wl, watchers = rootWatchers wl\<rparr>)"
    by (intro program_bad_interval_late) simp_all
qed

theorem fatal_configuration_witness:
  "program (process0\<lparr>watcherArgs := []\<rparr>) world0 0 =
     (Exited (LogFatal (Err ''Error: no watcher arguments provided. '')), noneRunning) \<and>
   program process0 (world0\<lparr>Stat := (\<lambda>_ _. Inr False)\<rparr>) 0 =
     (Exited (FlagError (Err ''watcher path must be a directory'')), noneRunning) \<and>
   program (process0\<lparr>envInterval := Some ''5m''\<rparr>) world0 0 =
     (Exited (LogFatal (Err ''invalid syntax'')),
      \<lparr>goroutines = rootGoroutines [''/data''], watchers = rootWatchers [''/data'']\<rparr>)"
proof -
  let ?p3 = "process0\<lparr>envInterval := Some ''5m''\<rparr>"
  have h1: "watcherArgs (process0\<lparr>watcherArgs := []\<rparr>) = []" by simp
  have h2: "\<exists>v\<in>set (watcherArgs process0). Stat (world0\<lparr>Stat := (\<lambda>_ _. Inr False)\<rparr>) 0 v \<noteq> Inr True"
    by (simp add: process0_def)
  have h3: "envInterval ?p3 = Some ''5m'' \<and> \<not> isInteger ''5m''"
    by (simp add: isInteger_def isDigit_def)
  have h4: "envEndpoint ?p3 \<noteq> None \<and> setAll world0 0 [] (watcherArgs ?p3) = Inr [''/data''] \<and>
      [''/data''] \<noteq> [] \<and> otherArgs ?p3 = [] \<and> NewWatcher world0 = None \<and>
      (\<forall>r\<in>set [''/data'']. WatAdd world0 0 r = None)"
    by (simp add: process0_def path_eval)
  from fatal_configuration [of "process0\<lparr>watcherArgs := []\<rparr>" world0 0] h1
  have a: "\<exists>x. program (process0\<lparr>watcherArgs := []\<rparr>) world0 0 = (Exited x, noneRunning)"
    by blast
  from fatal_configuration [of process0 "world0\<lparr>Stat := (\<lambda>_ _. Inr False)\<rparr>" 0] h2
  have b: "\<exists>x. program process0 (world0\<lparr>Stat := (\<lambda>_ _. Inr False)\<rparr>) 0 = (Exited x, noneRunning)"
    by blast
  from fatal_configuration [of ?p3 world0 0] h3 h4
  have c: "\<exists>e. Atoi ''5m'' = Inl e \<and>
      program ?p3 world0 0 =
        (Exited (LogFatal e),
         \<lparr>goroutines = rootGoroutines [''/data''], watchers = rootWatchers [''/data'']\<rparr>)"
    by blast
  have at: "Atoi ''5m'' = Inl (Err ''invalid syntax'')"
    by (simp add: Atoi_def isDigit_def)
  from a b c at show ?thesis
    by (auto simp: start_eval path_eval)
qed

lemma scheduledScan_fields:
  "scanCalls (scheduledScan c w t s) = scanCalls s @ [t]"
  "timers (scheduledScan c w t s) = timers s"
  "watched (scheduledScan c w t s) = watched s"
  by (auto simp: scheduledScan_def sendScanRequest_def printInfo_def printError_def Let_def
      split: option.splits)

lemma ticker_fields:
  "scanCalls (ticker c w start period n s) =
     scanCalls s @ map (\<lambda>k. start + int k * period) [1..<Suc n]"
  "timers (ticker c w start period n s) = timers s"
  "watched (ticker c w start period n s) = watched s"
  by (induction n) (simp_all add: scheduledScan_fields)

lemma default_period:
  assumes "envInterval p = None" and "init p = Inr c"
  shows "tickerPeriod c = Inr (30 * 60 * 1000000000)"
proof -
  from assms have "scheduledScanIntervalMinsEnv c = ''30''"
    by (auto simp: init_def split: option.splits)
  then show ?thesis
    by (simp add: tickerPeriod_def Atoi_def isDigit_def Minute_def)
qed

lemma same_action:
  assumes "\<not> Has ev Create"
  shows "\<exists>s'. processOp c w t ev s = Inr s' \<and>
           scanCalls s' = scanCalls (scheduledScan c w t s) \<and>
           posts s' = posts (scheduledScan c w t s)"
  using assms
  by (auto simp: processOp_def doProcessing_def scheduledScan_def sendScanRequest_def
      printInfo_def printError_def Let_def split: option.splits)

text \<open>
  C9: when no interval is configured the period of the ticker is 30 minutes (and \<^verbatim>\<open>main\<close>
  serves with no other period). The n-th tick comes n periods after the start of the
  ticker, whatever the state; each tick calls \<^verbatim>\<open>sendScanRequest\<close> once and leaves the timer
  table and the watched paths as they are; the call is the one \<^verbatim>\<open>processOp\<close> makes for a
  Write or Remove event.
\<close>

theorem scheduled_trigger:
  assumes "envInterval p = None" and "init p = Inr c"
  shows "tickerPeriod c = Inr (30 * 60 * 1000000000) \<and>
         (\<forall>period. fst (main p c w now) = Serving period \<longrightarrow> period = 30 * 60 * 1000000000) \<and>
         scanCalls (ticker c w start period n s) =
           scanCalls s @ map (\<lambda>k. start + int k * period) [1..<Suc n] \<and>
         timers (ticker c w start period n s) = timers s \<and>
         watched (ticker c w start period n s) = watched s \<and>
         (\<forall>ev. \<not> Has ev Create \<longrightarrow>
            (\<exists>s'. processOp c w t ev s = Inr s' \<and>
                  scanCalls s' = scanCalls (scheduledScan c w t s) \<and>
                  posts s' = posts (scheduledScan c w t s)))"
proof -
  have tp: "tickerPeriod c = Inr (30 * 60 * 1000000000)"
    using assms by (rule default_period)
  then have "\<forall>period. fst (main p c w now) = Serving period \<longrightarrow> period = 30 * 60 * 1000000000"
    by (auto simp: main_def split: sum.splits prod.splits option.splits if_splits)
  with tp show ?thesis
    by (simp add: ticker_fields same_action)
qed

theorem scheduled_trigger_witness:
  "program process0 world0 0 =
     (Serving 1800000000000,
      \<lparr>goroutines = [DedupLoop ''/data'', WatchSubdirs ''/data''],
       watchers = [(''/data'', idle\<lparr>watched := [''/data''],
                      logs := [(INFO, [''Initial watcher started at:'', ''/data''])]\<rparr>)]\<rparr>) \<and>
   scanCalls (ticker config0 world0 0 1800000000000 2 idle) = [1800000000000, 3600000000000]"
proof -
  have h1: "envInterval process0 = None" by (simp add: process0_def)
  have h2: "init process0 = Inr config0" by (simp add: init_def process0_def config0_def)
  from scheduled_trigger [OF h1 h2, where start = 0 and period = 1800000000000 and n = 2 and s = idle
      and w = world0]
  have "scanCalls (ticker config0 world0 0 1800000000000 2 idle) =
      scanCalls idle @ map (\<lambda>k. 0 + int k * 1800000000000) [1..<Suc 2]" by blast
  then have "scanCalls (ticker config0 world0 0 1800000000000 2 idle) = [1800000000000, 3600000000000]"
    by (simp add: idle_def upt_rec)
  moreover have "program process0 world0 0 =
     (Serving 1800000000000,
      \<lparr>goroutines = [DedupLoop ''/data'', WatchSubdirs ''/data''],
       watchers = [(''/data'', idle\<lparr>watched := [''/data''],
                      logs := [(INFO, [''Initial watcher started at:'', ''/data''])]\<rparr>)]\<rparr>)"
    by (simp add: start_eval path_eval)
  ultimately show ?thesis by simp
qed

end
